theory Spec2Isabelle
  imports Complex_Main "HOL-Library.Product_Lexorder" "HOL-Library.Multiset"
begin

section \<open>The dispatch core of \<open>circuits.core.manager\<close>\<close>

text \<open>
  A shallow embedding of \<open>src/circuits/core/manager.py\<close>: the handler registry
  (\<open>addHandler\<close>, \<open>removeHandler\<close>), handler resolution over the component tree
  (\<open>getHandlers\<close>), the dispatcher (\<open>_fire\<close>, \<open>fireEvent\<close>, \<open>_dispatcher\<close>,
  \<open>_eventDone\<close>, \<open>_flush\<close>), the task runner (\<open>processTask\<close>) and \<open>stop\<close>.
  Python names that start with an underscore lose it (\<open>_sortkey\<close> is \<open>sortkey\<close>);
  names that clash with a constant of HOL get a suffix.
\<close>

subsection \<open>Exceptions and values\<close>

text \<open>
  The exceptions the module raises or lets through. \<open>KeyboardInterrupt\<close> and
  \<open>SystemExit\<close> are the two classes the dispatcher re-raises; \<open>KeyError\<close> is what a
  failed \<open>dict\<close> lookup and \<open>set.remove\<close> raise, \<open>AttributeError\<close> what reading or
  deleting a missing attribute and setting a property raise, \<open>TypeError\<close> what
  subscripting a method raises; \<open>Exception\<close> stands for any other class.
\<close>

datatype exn =
  KeyboardInterrupt | SystemExit | KeyError | AttributeError | TypeError | Exception string

fun fatal :: "exn \<Rightarrow> bool" where
  "fatal KeyboardInterrupt = True"
| "fatal SystemExit = True"
| "fatal _ = False"

subsection \<open>Handlers\<close>

text \<open>
  A handler is a callable carrying metadata. \<open>hid\<close> is the identity of the callable,
  \<open>hname\<close> its \<open>__name__\<close>, \<open>self_channel\<close> is \<open>None\<close> when the callable has no
  \<open>__self__\<close> and otherwise \<open>Some (getattr(__self__, "channel", None))\<close>. A priority is
  a Python number; the numbers that Python orders (the integers and the floats other
  than \<open>nan\<close>) are real numbers here.
\<close>

record handler =
  hid :: nat
  hname :: string
  names :: "string list"
  channel :: "string option"
  priority :: real
  filter_h :: bool
  event_h :: bool
  self_channel :: "string option option"

text \<open>\<open>_sortkey\<close>: a Python tuple, compared lexicographically, \<open>False < True\<close>.\<close>

definition sortkey :: "handler \<Rightarrow> real \<times> bool" where
  "sortkey h = (priority h, filter_h h)"

text \<open>
  \<open>sorted(xs, key=k, reverse=True)\<close>: CPython reverses the list, sorts it stably in
  ascending order and reverses the result, so equal keys keep their input order.
\<close>

definition sorted_reverse :: "('a \<Rightarrow> 'k::linorder) \<Rightarrow> 'a list \<Rightarrow> 'a list" where
  "sorted_reverse k xs = rev (sort_key k (rev xs))"

text \<open>In the list \<open>xs\<close> of calls, \<open>a\<close> comes at some place before \<open>b\<close>.\<close>

fun invoked_before :: "'a list \<Rightarrow> 'a \<Rightarrow> 'a \<Rightarrow> bool" where
  "invoked_before [] a b = False"
| "invoked_before (x # xs) a b = ((x = a \<and> b \<in> set xs) \<or> invoked_before xs a b)"

subsection \<open>The handler registry of one manager\<close>

text \<open>
  What an attribute of a manager instance holds, as far as the two methods can tell:
  \<open>Own\<close> is the object the manager itself stored there (for \<open>_globals\<close> and \<open>_handlers\<close>
  the set and the dict), \<open>Bound h\<close> a handler that \<open>setattr\<close> of \<open>addHandler\<close> stored.
\<close>

datatype attr = Own | Bound handler

text \<open>
  \<open>globals_r\<close> is the set \<open>_globals\<close>, \<open>handlers_r\<close> the dict \<open>_handlers\<close> (from event names
  to sets of handlers), \<open>attrs\<close> the attributes of the instance (its \<open>__dict__\<close>):
  \<open>setattr(self, method.__name__, method)\<close> writes among them, whatever was there.
\<close>

record registry =
  globals_r :: "handler set"
  handlers_r :: "string \<rightharpoonup> handler set"
  attrs :: "string \<rightharpoonup> attr"

text \<open>
  The properties of the class \<open>Manager\<close>, which have no setter and no deleter:
  \<open>setattr\<close> and \<open>delattr\<close> under these names raise \<open>AttributeError\<close>.
\<close>

definition properties :: "string set" where
  "properties = {''name'', ''running''}"

text \<open>The attributes that \<open>__init__\<close> sets.\<close>

definition init_names :: "string list" where
  "init_names = [''_tasks'', ''_ticks'', ''_cache'', ''_queue'', ''_globals'', ''_handlers'',
                 ''_task'', ''_executing_thread'', ''_running'', ''_lock'', ''root'', ''parent'',
                 ''components'']"

definition init_attrs :: "string \<rightharpoonup> attr" where
  "init_attrs = (\<lambda>n. if n \<in> set init_names then Some Own else None)"

text \<open>\<open>d.setdefault(name, set()).add(method)\<close>\<close>

definition setdefault_add :: "string \<Rightarrow> handler \<Rightarrow> (string \<rightharpoonup> handler set) \<Rightarrow> (string \<rightharpoonup> handler set)" where
  "setdefault_add name method d =
     d(name \<mapsto> insert method (case d name of None \<Rightarrow> {} | Some S \<Rightarrow> S))"

text \<open>
  The two methods work on the registry of \<open>self\<close> and on the cache of the root; a
  result is the exception raised, if any, with the registry and the cache as the call
  leaves them. \<open>is_root\<close> says that \<open>self\<close> is the root, so that \<open>self.root._cache\<close> is
  an attribute of \<open>self\<close>.

  \<open>self.root._cache.clear()\<close>: a method has neither an attribute \<open>_cache\<close> nor
  \<open>clear\<close>, and reading a missing attribute raises \<open>AttributeError\<close> as well.
\<close>

definition clear_root_cache ::
  "bool \<Rightarrow> registry \<times> ('k \<rightharpoonup> 'v) \<Rightarrow> exn option \<times> registry \<times> ('k \<rightharpoonup> 'v)" where
  "clear_root_cache is_root rc =
     (if attrs (fst rc) ''root'' \<noteq> Some Own then (Some AttributeError, rc)
      else if is_root \<and> attrs (fst rc) ''_cache'' \<noteq> Some Own then (Some AttributeError, rc)
      else (None, fst rc, Map.empty))"

text \<open>
  \<open>addHandler\<close>. Binding a plain function with \<open>MethodType\<close> gives an object equal to
  every other binding of that function to \<open>self\<close>, so \<open>method\<close> is the handler itself.
  \<open>self._globals.add\<close> and \<open>self._handlers.setdefault\<close> raise \<open>AttributeError\<close> when the
  attribute is missing or holds a method.
\<close>

definition addHandler ::
  "bool \<Rightarrow> handler \<Rightarrow> registry \<times> ('k \<rightharpoonup> 'v) \<Rightarrow> exn option \<times> registry \<times> ('k \<rightharpoonup> 'v)" where
  "addHandler is_root method rc =
     (let r = fst rc
      in if hname method \<in> properties then (Some AttributeError, rc)
         else
           (let r1 = r\<lparr>attrs := (attrs r)(hname method \<mapsto> Bound method)\<rparr>
            in if names method = [] \<and> channel method = Some ''*''
               then (if attrs r1 ''_globals'' \<noteq> Some Own then (Some AttributeError, r1, snd rc)
                     else clear_root_cache is_root
                            (r1\<lparr>globals_r := insert method (globals_r r1)\<rparr>, snd rc))
               else if attrs r1 ''_handlers'' \<noteq> Some Own then (Some AttributeError, r1, snd rc)
               else if names method = []
               then clear_root_cache is_root
                      (r1\<lparr>handlers_r := setdefault_add ''*'' method (handlers_r r1)\<rparr>, snd rc)
               else clear_root_cache is_root
                      (fold (\<lambda>name r'. r'\<lparr>handlers_r := setdefault_add name method (handlers_r r')\<rparr>)
                         (names method) r1, snd rc)))"

text \<open>
  \<open>delattr(self, method.__name__)\<close> inside its \<open>try\<close>: the \<open>AttributeError\<close> of a
  property or of a missing attribute is caught.
\<close>

definition delattr_caught :: "string \<Rightarrow> registry \<Rightarrow> registry" where
  "delattr_caught n r = (if n \<in> properties then r else r\<lparr>attrs := (attrs r)(n := None)\<rparr>)"

text \<open>
  The loop of \<open>removeHandler\<close>. \<open>self._handlers\<close> raises \<open>AttributeError\<close> when the
  attribute is missing, and subscripting it raises \<open>TypeError\<close> when it holds a method;
  \<open>self._handlers[name]\<close> raises \<open>KeyError\<close> when the bucket is missing and
  \<open>set.remove\<close> raises it when the method is not in the bucket. The only exception the
  source catches is the \<open>AttributeError\<close> of \<open>delattr\<close>. What the rounds before a raise
  have changed stays changed.
\<close>

fun remove_loop :: "handler \<Rightarrow> string list \<Rightarrow> registry \<Rightarrow> exn option \<times> registry" where
  "remove_loop method [] r = (None, r)"
| "remove_loop method (name # ns) r =
     (case attrs r ''_handlers'' of
        None \<Rightarrow> (Some AttributeError, r)
      | Some (Bound h) \<Rightarrow> (Some TypeError, r)
      | Some Own \<Rightarrow>
          (case handlers_r r name of
             None \<Rightarrow> (Some KeyError, r)
           | Some S \<Rightarrow>
               if method \<notin> S then (Some KeyError, r)
               else if S - {method} = {}
               then remove_loop method ns
                      (delattr_caught (hname method) (r\<lparr>handlers_r := (handlers_r r)(name := None)\<rparr>))
               else remove_loop method ns
                      (r\<lparr>handlers_r := (handlers_r r)(name \<mapsto> S - {method})\<rparr>)))"

definition removeHandler ::
  "bool \<Rightarrow> handler \<Rightarrow> string option \<Rightarrow> registry \<times> ('k \<rightharpoonup> 'v)
     \<Rightarrow> exn option \<times> registry \<times> ('k \<rightharpoonup> 'v)" where
  "removeHandler is_root method event rc =
     (let ns = (case event of None \<Rightarrow> names method | Some e \<Rightarrow> [e])
      in case remove_loop method ns (fst rc) of
           (Some x, r) \<Rightarrow> (Some x, r, snd rc)
         | (None, r) \<Rightarrow> clear_root_cache is_root (r, snd rc))"

text \<open>
  The two statements \<open>m.addHandler(h); m.removeHandler(h)\<close>: an exception of the first
  ends the sequence.
\<close>

definition add_remove ::
  "bool \<Rightarrow> handler \<Rightarrow> registry \<times> ('k \<rightharpoonup> 'v) \<Rightarrow> exn option \<times> registry \<times> ('k \<rightharpoonup> 'v)" where
  "add_remove is_root method rc =
     (case addHandler is_root method rc of
        (Some x, rc1) \<Rightarrow> (Some x, rc1)
      | (None, rc1) \<Rightarrow> removeHandler is_root method None rc1)"

subsection \<open>The component tree and handler resolution\<close>

text \<open>
  A manager with the fields \<open>getHandlers\<close> reads: its identity, its \<open>channel\<close>
  attribute (\<open>None\<close> when the attribute is missing, \<open>Some None\<close> when it is Python's
  \<open>None\<close>), its registry and its child components.
\<close>

datatype manager =
  Manager (mid: nat) (mchannel: "string option option") (reg: registry) (components: "manager list")

text \<open>
  A channel value: Python's \<open>None\<close>, a string (\<open>"*"\<close> is the wildcard), or a manager
  instance used as a target.
\<close>

datatype chan = CNone | CStr string | CInst manager

fun is_instance :: "chan \<Rightarrow> bool" where
  "is_instance (CInst m) = True"
| "is_instance _ = False"

text \<open>
  The effective channel of a handler: \<open>handler.channel\<close> when it is truthy (a non-empty
  string), else the channel of \<open>handler.__self__\<close>, else \<open>None\<close>.
\<close>

definition handler_channel :: "handler \<Rightarrow> string option" where
  "handler_channel h =
     (case channel h of
        Some c \<Rightarrow> if c \<noteq> [] then Some c
                  else (case self_channel h of Some oc \<Rightarrow> oc | None \<Rightarrow> None)
      | None \<Rightarrow> (case self_channel h of Some oc \<Rightarrow> oc | None \<Rightarrow> None))"

text \<open>\<open>handler_channel in ("*", channel,)\<close>: equality with \<open>"*"\<close> or with the channel asked for.\<close>

fun channel_in :: "string option \<Rightarrow> chan \<Rightarrow> bool" where
  "channel_in hc CNone = (hc = Some ''*'' \<or> hc = None)"
| "channel_in hc (CStr c) = (hc = Some ''*'' \<or> hc = Some c)"
| "channel_in hc (CInst m) = (hc = Some ''*'')"

definition bucket :: "registry \<Rightarrow> string \<Rightarrow> handler set" where
  "bucket r name = (case handlers_r r name of None \<Rightarrow> {} | Some S \<Rightarrow> S)"

text \<open>The handlers of one manager that pass the channel test of the \<open>for\<close> loop.\<close>

definition own_handlers :: "registry \<Rightarrow> string \<Rightarrow> chan \<Rightarrow> handler set" where
  "own_handlers r name ch =
     {h \<in> bucket r ''*'' \<union> bucket r name.
        ch = CStr ''*'' \<or> channel_in (handler_channel h) ch \<or> is_instance ch}"

text \<open>
  The body of \<open>getHandlers\<close> below its first \<open>if\<close>. The recursive calls
  \<open>c.getHandlers(event, channel)\<close> are made only when the channel is no instance, and
  then the first \<open>if\<close> of the callee is false as well.
\<close>

fun getHandlers_body :: "manager \<Rightarrow> string \<Rightarrow> chan \<Rightarrow> handler set" where
  "getHandlers_body (Manager i ca r cs) name ch =
     own_handlers r name ch \<union> globals_r r \<union>
     (if \<not> is_instance ch
      then \<Union> (set (map (\<lambda>c. getHandlers_body c name ch) cs))
      else {})"

text \<open>
  \<open>getHandlers(event, channel)\<close>; \<open>name\<close> is \<open>event.name\<close>, all the method reads of the
  event. A channel that is another manager gets the call; there \<open>channel != self\<close> is
  false and the body runs with \<open>channel_is_instance\<close> true.
\<close>

definition getHandlers :: "manager \<Rightarrow> string \<Rightarrow> chan \<Rightarrow> handler set" where
  "getHandlers self name ch =
     (case ch of
        CInst target \<Rightarrow>
          if mid target \<noteq> mid self then getHandlers_body target name ch
          else getHandlers_body self name ch
      | _ \<Rightarrow> getHandlers_body self name ch)"

subsection \<open>Values, events and the state of the root manager\<close>

type_synonym eid = nat
type_synonym gid = nat
type_synonym thread = nat

text \<open>
  The Python values a handler or a task can hand to the manager. \<open>PError x\<close> is the
  tuple \<open>(etype, evalue, traceback)\<close> made for the exception \<open>x\<close> (the text of the
  traceback is not modelled); \<open>PGen g\<close> is the generator object \<open>g\<close>;
  \<open>PCallValue v\<close> is \<open>CallValue(v)\<close>.
\<close>

datatype pyval =
  PNone | PBool bool | PInt int | PStr string
  | PError exn | PGen gid | PCallValue pyval

text \<open>Truth value testing: a 3-tuple, a generator and a plain object are true.\<close>

fun truthy :: "pyval \<Rightarrow> bool" where
  "truthy PNone = False"
| "truthy (PBool b) = b"
| "truthy (PInt n) = (n \<noteq> 0)"
| "truthy (PStr s) = (s \<noteq> [])"
| "truthy (PError x) = True"
| "truthy (PGen g) = True"
| "truthy (PCallValue v) = True"

text \<open>
  The event classes the module tells apart or creates. \<open>Done e v\<close> is
  \<open>Done.create("Done", e, v)\<close>, and so on for \<open>Success\<close>, \<open>Failure\<close> and \<open>Complete\<close>;
  \<open>Error err h\<close> is \<open>Error(etype, evalue, traceback, h)\<close>.
\<close>

datatype ekind =
  Plain | Done eid pyval | Success eid pyval | Failure eid pyval | Complete eid pyval
  | Error pyval "handler option" | Started | Stopped | Signal | GenerateEvents

text \<open>
  An event object. The fields \<open>v_value\<close>, \<open>v_errors\<close>, \<open>v_promise\<close> and \<open>v_informed\<close>
  are those of \<open>event.value\<close> (the last records a call of \<open>inform(True)\<close>);
  \<open>handler_e\<close> is \<open>event.handler\<close>. The attributes \<open>cause\<close> and \<open>effects\<close> are set
  together (in \<open>_fire\<close> and in \<open>_dispatcher\<close>) and deleted together (in \<open>_eventDone\<close>),
  and \<open>effects\<close> is read only where \<open>cause\<close> has been found set: \<open>cause = None\<close> is
  the state with both attributes missing, in which the number in \<open>effects\<close> is never
  read.
\<close>

record event =
  ename :: string
  kind :: ekind
  args :: "pyval list"
  channels :: "chan list"
  complete :: bool
  success :: bool
  failure :: bool
  alert_done :: bool
  success_channels :: "chan list option"
  complete_channels :: "chan list option"
  waitingHandlers :: int
  cause :: "eid option"
  effects :: int
  handler_e :: "handler option"
  v_value :: pyval
  v_errors :: bool
  v_promise :: bool
  v_informed :: bool

text \<open>The tuples of \<open>_tasks\<close>: \<open>(event, task)\<close> and \<open>(event, task, parent)\<close>.\<close>

datatype task = Task2 eid gid | Task3 eid gid "gid option"

text \<open>
  The root manager. \<open>events\<close> is the heap of event objects, an \<open>eid\<close> is an index into
  it; \<open>fallback_generator\<close> says that \<open>_fallback_generator\<close> is set; \<open>app\<close> is the
  state of the rest of the program (components, generator frames).
\<close>

record 'u mstate =
  root :: manager
  events :: "event list"
  queue :: "(eid \<times> chan list) list"
  cache :: "(string \<times> chan list) \<rightharpoonup> handler list"
  tasks :: "task set"
  ticks :: "nat set"
  currently_handling :: "eid option"
  executing_thread :: "thread option"
  running :: bool
  fallback_generator :: bool
  app :: 'u

text \<open>What a call of a handler or of a tick function does: it returns or it raises.\<close>

datatype outcome = Returns pyval | Raises exn

text \<open>What \<open>next()\<close> and \<open>send()\<close> of a generator do.\<close>

datatype gout = Yields pyval | StopIteration | GenRaises exn

text \<open>
  The code outside the module: the bodies of the handlers, of the tick functions and of
  the generators, each a function of the state, the order in which Python iterates
  over a set, and \<open>FallBackGenerator().register(self)\<close> of \<open>helpers.py\<close>.
\<close>

record 'u env =
  call :: "handler \<Rightarrow> eid option \<Rightarrow> pyval list \<Rightarrow> 'u mstate \<Rightarrow> outcome \<times> 'u mstate"
  call_tick :: "nat \<Rightarrow> 'u mstate \<Rightarrow> outcome \<times> 'u mstate"
  next_g :: "gid \<Rightarrow> 'u mstate \<Rightarrow> gout \<times> 'u mstate"
  send_g :: "gid \<Rightarrow> pyval \<Rightarrow> 'u mstate \<Rightarrow> gout \<times> 'u mstate"
  iter_h :: "handler set \<Rightarrow> handler list"
  iter_t :: "task set \<Rightarrow> task list"
  iter_k :: "nat set \<Rightarrow> nat list"
  register_fallback :: "'u mstate \<Rightarrow> 'u mstate"

subsection \<open>Firing events\<close>

text \<open>
  Modelled from the spec: the class \<open>Event\<close> of \<open>events.py\<close>, which is not among the
  sources. A new event has no channels, all flags false, no waiting handlers and
  neither \<open>cause\<close> nor \<open>effects\<close>; its \<open>value\<close> is set by \<open>fireEvent\<close>.
\<close>

definition Event :: "string \<Rightarrow> ekind \<Rightarrow> event" where
  "Event n k =
     \<lparr>ename = n, kind = k, args = [], channels = [], complete = False, success = False,
      failure = False, alert_done = False, success_channels = None,
      complete_channels = None, waitingHandlers = 0, cause = None, effects = 0,
      handler_e = None, v_value = PNone, v_errors = False, v_promise = False,
      v_informed = False\<rparr>"

text \<open>
  Modelled from the spec: the names of the events that \<open>Done.create\<close>,
  \<open>Success.create\<close>, \<open>Failure.create\<close> and \<open>Complete.create\<close> of \<open>events.py\<close> make
  (\<open>hello_success\<close> for \<open>hello\<close>; \<open>waitEvent\<close> listens for \<open>"%s_done" % event\<close>).
\<close>

definition derived :: "event \<Rightarrow> string \<Rightarrow> ekind \<Rightarrow> event" where
  "derived x suffix k = Event (ename x @ ''_'' @ suffix) k"

definition upd_event :: "eid \<Rightarrow> (event \<Rightarrow> event) \<Rightarrow> 'u mstate \<Rightarrow> 'u mstate" where
  "upd_event e f s = s\<lparr>events := (events s)[e := f (events s ! e)]\<rparr>"

text \<open>Creating an event object puts it on the heap.\<close>

definition new_event :: "event \<Rightarrow> 'u mstate \<Rightarrow> eid \<times> 'u mstate" where
  "new_event x s = (length (events s), s\<lparr>events := events s @ [x]\<rparr>)"

text \<open>
  \<open>_fire\<close>, run by the thread \<open>thr\<close>. Both branches of the foreign-thread case append
  to the queue; \<open>reduce_time_left\<close> only shortens a wait and is not modelled.
\<close>

definition fire :: "thread \<Rightarrow> eid \<Rightarrow> chan list \<Rightarrow> 'u mstate \<Rightarrow> 'u mstate" where
  "fire thr e chs s =
     (if executing_thread s = Some thr \<and> kind (events s ! e) \<noteq> Signal
      then
        (let s1 = (case currently_handling s of
                     None \<Rightarrow> s
                   | Some c \<Rightarrow>
                       if cause (events s ! c) \<noteq> None
                       then upd_event c (\<lambda>x. x\<lparr>effects := effects x + 1\<rparr>)
                              (upd_event e (\<lambda>x. x\<lparr>cause := Some c, effects := 1\<rparr>) s)
                       else s)
         in s1\<lparr>queue := queue s1 @ [(e, chs)]\<rparr>)
      else s\<lparr>queue := queue s @ [(e, chs)]\<rparr>)"

text \<open>
  \<open>fireEvent\<close> (also \<open>fire\<close> in the source) called on a manager whose \<open>channel\<close>
  attribute is \<open>self_chan\<close>; \<open>fire_channels\<close> is its choice of the channels. Modelled from the spec: \<open>Value(event, self, notify)\<close> of
  \<open>values.py\<close> is a fresh value with no value, no error and no promise.
\<close>

definition fire_channels :: "string option option \<Rightarrow> event \<Rightarrow> chan list \<Rightarrow> chan list" where
  "fire_channels self_chan x chs =
     (if chs \<noteq> [] then chs
      else if channels x \<noteq> [] then channels x
      else [case self_chan of
              None \<Rightarrow> CStr ''*''
            | Some None \<Rightarrow> CNone
            | Some (Some c) \<Rightarrow> CStr c])"

definition fireEvent :: "thread \<Rightarrow> string option option \<Rightarrow> eid \<Rightarrow> chan list \<Rightarrow> 'u mstate \<Rightarrow> 'u mstate" where
  "fireEvent thr self_chan e chs s =
     (let chs' = fire_channels self_chan (events s ! e) chs;
          s1 = upd_event e (\<lambda>x. x\<lparr>channels := chs', v_value := PNone, v_errors := False,
                                   v_promise := False, v_informed := False\<rparr>) s
      in fire thr e chs' s1)"

text \<open>\<open>self.fire(X(...), *chs)\<close> on the root: the event is created, then fired.\<close>

definition fire_new :: "thread \<Rightarrow> event \<Rightarrow> chan list \<Rightarrow> 'u mstate \<Rightarrow> 'u mstate" where
  "fire_new thr x chs s =
     (let (i, s1) = new_event x s in fireEvent thr (mchannel (root s1)) i chs s1)"

definition registerTask :: "task \<Rightarrow> 'u mstate \<Rightarrow> 'u mstate" where
  "registerTask g s = s\<lparr>tasks := insert g (tasks s)\<rparr>"

definition unregisterTask :: "task \<Rightarrow> 'u mstate \<Rightarrow> 'u mstate" where
  "unregisterTask g s = (if g \<in> tasks s then s\<lparr>tasks := tasks s - {g}\<rparr> else s)"

subsection \<open>\<open>_eventDone\<close>\<close>

text \<open>
  The \<open>while True\<close> loop of \<open>_eventDone\<close>. \<open>n\<close> is the number of event objects when the
  loop starts: the walk along \<open>cause\<close> stays among them (a reference is never
  dangling in Python), and every round that goes on deletes the \<open>cause\<close> of one of
  them, which is why the loop ends.
\<close>

function eventDone_loop :: "thread \<Rightarrow> nat \<Rightarrow> eid \<Rightarrow> 'u mstate \<Rightarrow> 'u mstate" where
  "eventDone_loop thr n e s =
     (if e < n \<and> n \<le> length (events s) then
        (case cause (events s ! e) of
           None \<Rightarrow> s
         | Some c \<Rightarrow>
             (let s1 = upd_event e (\<lambda>x. x\<lparr>effects := effects x - 1\<rparr>) s
              in if effects (events s1 ! e) > 0 then s1
                 else
                   (let s2 = (if complete (events s1 ! e)
                              then fire_new thr
                                     (derived (events s1 ! e) ''complete''
                                        (Complete e (v_value (events s1 ! e))))
                                     (case complete_channels (events s1 ! e) of
                                        None \<Rightarrow> channels (events s1 ! e)
                                      | Some cs \<Rightarrow> cs)
                                     s1
                              else s1);
                        s3 = upd_event e (\<lambda>x. x\<lparr>cause := None\<rparr>) s2
                    in eventDone_loop thr n c s3)))
      else s)"
  by pat_completeness auto

text \<open>Termination: the \<open>cause\<close> attributes of the first \<open>n\<close> objects that are set.\<close>

definition causes :: "nat \<Rightarrow> 'u mstate \<Rightarrow> eid option list" where
  "causes n s = map cause (take n (events s))"

lemma causes_upd_keep:
  "(\<And>x. cause (f x) = cause x) \<Longrightarrow> causes n (upd_event i f s) = causes n s"
proof -
  assume f: "\<And>x. cause (f x) = cause x"
  have "map cause ((events s)[i := f (events s ! i)]) = map cause (events s)"
    by (cases "i < length (events s)") (simp_all add: map_update f list_update_same_conv list_update_beyond)
  then show ?thesis
    by (simp add: causes_def upd_event_def take_map [symmetric])
qed

lemma causes_upd_beyond:
  "n \<le> i \<Longrightarrow> causes n (upd_event i f s) = causes n s"
  by (simp add: causes_def upd_event_def)

lemma causes_queue [simp]: "causes n (s\<lparr>queue := q\<rparr>) = causes n s"
  by (simp add: causes_def)

lemma length_events_upd [simp]: "length (events (upd_event i f s)) = length (events s)"
  by (simp add: upd_event_def)

lemma causes_fire:
  "n \<le> e \<Longrightarrow> causes n (fire thr e chs s) = causes n s"
  by (simp add: fire_def Let_def causes_upd_keep causes_upd_beyond split: option.splits)

lemma causes_fire_new:
  "n \<le> length (events s) \<Longrightarrow> causes n (fire_new thr x chs s) = causes n s"
  by (simp add: fire_new_def new_event_def fireEvent_def Let_def causes_fire causes_upd_beyond)
     (simp add: causes_def)

lemma causes_upd_cause:
  "causes n (upd_event e (\<lambda>x. x\<lparr>cause := v\<rparr>) s) = (causes n s)[e := v]"
  by (simp add: causes_def upd_event_def take_update_swap map_update)

lemma filter_update_less:
  "i < length xs \<Longrightarrow> P (xs ! i) \<Longrightarrow> \<not> P y \<Longrightarrow>
   length (filter P (xs[i := y])) < length (filter P xs)"
proof (induction xs arbitrary: i)
  case Nil
  then show ?case by simp
next
  case (Cons a xs)
  then show ?case by (cases i) auto
qed

termination eventDone_loop
proof (relation "measure (\<lambda>(thr, n, e, s). length (filter (\<lambda>c. c \<noteq> None) (causes n s)))", goal_cases)
  case 1
  show ?case by simp
next
  case (2 thr n e s c s1 s2 s3)
  have e: "e < n" "n \<le> length (events s)" using 2(1) by auto
  have c1: "causes n s1 = causes n s" unfolding 2(3) by (rule causes_upd_keep) simp
  have l1: "n \<le> length (events s1)" unfolding 2(3) using e by simp
  have c2: "causes n s2 = causes n s1" unfolding 2(5) using l1 by (simp add: causes_fire_new)
  have c3: "causes n s3 = (causes n s)[e := None]" unfolding 2(6) by (simp add: causes_upd_cause c2 c1)
  have "causes n s ! e = Some c" using e 2(2) by (simp add: causes_def)
  moreover have "e < length (causes n s)" using e by (simp add: causes_def)
  ultimately have "length (filter (\<lambda>c. c \<noteq> None) ((causes n s)[e := None]))
      < length (filter (\<lambda>c. c \<noteq> None) (causes n s))"
    by (intro filter_update_less) auto
  then show ?case using c3 by simp
qed

declare eventDone_loop.simps [simp del]

text \<open>\<open>_eventDone(event, error)\<close>; \<open>error\<close> is \<open>None\<close> or the tuple of the last failure.\<close>

definition eventDone :: "thread \<Rightarrow> eid \<Rightarrow> pyval option \<Rightarrow> 'u mstate \<Rightarrow> 'u mstate" where
  "eventDone thr e error s =
     (if waitingHandlers (events s ! e) \<noteq> 0 then s
      else
        (let s1 = (if alert_done (events s ! e)
                   then fire_new thr
                          (derived (events s ! e) ''done'' (Done e (v_value (events s ! e))))
                          (channels (events s ! e)) s
                   else s);
             s2 = (if error = None \<and> success (events s1 ! e)
                   then fire_new thr
                          (derived (events s1 ! e) ''success'' (Success e (v_value (events s1 ! e))))
                          (case success_channels (events s1 ! e) of
                             None \<Rightarrow> channels (events s1 ! e)
                           | Some cs \<Rightarrow> cs)
                          s1
                   else s1)
         in eventDone_loop thr (length (events s2)) e s2))"

subsection \<open>\<open>_dispatcher\<close> and \<open>_flush\<close>\<close>

text \<open>
  The \<open>try\<close> statement of the loop body for the handler \<open>h\<close>: the call, and the two
  \<open>except\<close> clauses. The result is the exception that leaves the dispatcher, or the
  local variables \<open>value\<close> and \<open>error\<close> with the state.
\<close>

definition invoke ::
  "'u env \<Rightarrow> thread \<Rightarrow> eid \<Rightarrow> pyval list \<Rightarrow> handler \<Rightarrow> pyval option \<Rightarrow> 'u mstate
     \<Rightarrow> exn + (pyval \<times> pyval option \<times> 'u mstate)" where
  "invoke env thr e eargs h error s =
     (case call env h (if event_h h then Some e else None) eargs s of
        (Returns v, s1) \<Rightarrow> Inr (v, error, s1)
      | (Raises x, s1) \<Rightarrow>
          if fatal x then Inl x
          else
            (let err = PError x;
                 s2 = upd_event e (\<lambda>y. y\<lparr>v_errors := True\<rparr>) s1;
                 s3 = (if failure (events s2 ! e)
                       then fire_new thr (derived (events s2 ! e) ''failure'' (Failure e err))
                              (channels (events s2 ! e)) s2
                       else s2);
                 s4 = fire_new thr (Event ''error'' (Error err (Some h))) [] s3
             in Inr (err, Some err, s4)))"

text \<open>The \<open>if isinstance(value, GeneratorType) ... elif value is not None\<close> of the loop body.\<close>

definition store_value :: "eid \<Rightarrow> pyval \<Rightarrow> 'u mstate \<Rightarrow> 'u mstate" where
  "store_value e v s =
     (case v of
        PGen g \<Rightarrow>
          registerTask (Task2 e g)
            (upd_event e (\<lambda>y. y\<lparr>waitingHandlers := waitingHandlers y + 1, v_promise := True\<rparr>) s)
      | PNone \<Rightarrow> s
      | _ \<Rightarrow> upd_event e (\<lambda>y. y\<lparr>v_value := v\<rparr>) s)"

text \<open>
  The \<open>for handler in handlers\<close> loop. Besides the variable \<open>error\<close> and the state it
  returns the handlers it has called, in the order of the calls, each with the
  \<open>value\<close> its call left; nothing in the loop reads that list.
\<close>

fun dispatch_loop ::
  "'u env \<Rightarrow> thread \<Rightarrow> eid \<Rightarrow> pyval list \<Rightarrow> handler list \<Rightarrow> pyval option
     \<Rightarrow> (handler \<times> pyval) list \<Rightarrow> 'u mstate
     \<Rightarrow> exn + (pyval option \<times> (handler \<times> pyval) list \<times> 'u mstate)" where
  "dispatch_loop env thr e eargs [] error called s = Inr (error, called, s)"
| "dispatch_loop env thr e eargs (h # hs) error called s =
     (case invoke env thr e eargs h error (upd_event e (\<lambda>y. y\<lparr>handler_e := Some h\<rparr>) s) of
        Inl x \<Rightarrow> Inl x
      | Inr (v, error', s1) \<Rightarrow>
          (let s2 = store_value e v s1
           in if truthy v \<and> filter_h h then Inr (error', called @ [(h, v)], s2)
              else dispatch_loop env thr e eargs hs error' (called @ [(h, v)]) s2))"

text \<open>The head of \<open>_dispatcher\<close>: \<open>_currently_handling\<close>, and \<open>cause\<close> and \<open>effects\<close>.\<close>

definition dispatcher_setup :: "eid \<Rightarrow> 'u mstate \<Rightarrow> 'u mstate" where
  "dispatcher_setup e s =
     (let s1 = s\<lparr>currently_handling := Some e\<rparr>
      in if complete (events s1 ! e)
         then upd_event e
                (\<lambda>y. y\<lparr>cause := (if cause y = None then Some e else cause y), effects := 1\<rparr>) s1
         else s1)"

text \<open>The handler list: from the cache, or resolved, sorted and stored there.\<close>

definition dispatcher_handlers ::
  "'u env \<Rightarrow> eid \<Rightarrow> chan list \<Rightarrow> 'u mstate \<Rightarrow> handler list \<times> 'u mstate" where
  "dispatcher_handlers env e chs s =
     (case cache s (ename (events s ! e), chs) of
        Some hs \<Rightarrow> (hs, s)
      | None \<Rightarrow>
          (let hs = sorted_reverse sortkey
                      (concat (map (\<lambda>c. iter_h env (getHandlers (root s) (ename (events s ! e)) c)) chs))
           in (hs, s\<lparr>cache := (cache s)((ename (events s ! e), chs) \<mapsto> hs)\<rparr>)))"

definition dispatcher :: "'u env \<Rightarrow> thread \<Rightarrow> eid \<Rightarrow> chan list \<Rightarrow> 'u mstate \<Rightarrow> exn + 'u mstate" where
  "dispatcher env thr e chs s =
     (let s1 = dispatcher_setup e s;
          eargs = args (events s1 ! e);
          (hs, s2) = dispatcher_handlers env e chs s1
      in case dispatch_loop env thr e eargs hs None [] s2 of
           Inl x \<Rightarrow> Inl x
         | Inr (error, called, s3) \<Rightarrow>
             Inr (eventDone thr e error (s3\<lparr>currently_handling := None\<rparr>)))"

text \<open>\<open>_flush\<close>: the loop over the queue it took, and the method.\<close>

fun flush_loop :: "'u env \<Rightarrow> thread \<Rightarrow> (eid \<times> chan list) list \<Rightarrow> 'u mstate \<Rightarrow> exn + 'u mstate" where
  "flush_loop env thr [] s = Inr s"
| "flush_loop env thr ((e, chs) # q) s =
     (case dispatcher env thr e chs s of
        Inl x \<Rightarrow> Inl x
      | Inr s1 \<Rightarrow> flush_loop env thr q s1)"

definition flush :: "'u env \<Rightarrow> thread \<Rightarrow> 'u mstate \<Rightarrow> exn + 'u mstate" where
  "flush env thr s =
     (let set_executing = (executing_thread s = None);
          s1 = (if set_executing then s\<lparr>executing_thread := Some thr\<rparr> else s);
          q = queue s1
      in case flush_loop env thr q (s1\<lparr>queue := []\<rparr>) of
           Inl x \<Rightarrow> Inl x
         | Inr s2 \<Rightarrow> Inr (if set_executing then s2\<lparr>executing_thread := None\<rparr> else s2))"

subsection \<open>The task runner\<close>

text \<open>The \<open>except StopIteration\<close> clause of \<open>processTask\<close>.\<close>

definition task_stopped :: "thread \<Rightarrow> eid \<Rightarrow> gid \<Rightarrow> gid option \<Rightarrow> 'u mstate \<Rightarrow> 'u mstate" where
  "task_stopped thr e t parent s =
     (let s1 = upd_event e (\<lambda>y. y\<lparr>waitingHandlers := waitingHandlers y - 1\<rparr>) s
      in case parent of
           Some p \<Rightarrow> registerTask (Task2 e p) (unregisterTask (Task3 e t parent) s1)
         | None \<Rightarrow>
             (let s2 = unregisterTask (Task2 e t) s1
              in if waitingHandlers (events s2 ! e) = 0
                 then eventDone thr e None (upd_event e (\<lambda>y. y\<lparr>v_informed := True\<rparr>) s2)
                 else s2))"

text \<open>
  The bare \<open>except\<close> clause of \<open>processTask\<close>, for the exception \<open>x\<close>; \<open>v\<close> is the
  local variable \<open>value\<close> when it was raised.
\<close>

definition task_failed :: "thread \<Rightarrow> eid \<Rightarrow> gid \<Rightarrow> pyval \<Rightarrow> exn \<Rightarrow> 'u mstate \<Rightarrow> 'u mstate" where
  "task_failed thr e t v x s =
     (let s1 = unregisterTask (Task2 e t) s;
          err = PError x;
          s2 = upd_event e (\<lambda>y. y\<lparr>v_value := v, v_errors := True, v_informed := True\<rparr>) s1;
          s3 = (if failure (events s2 ! e)
                then fire_new thr (derived (events s2 ! e) ''failure'' (Failure e err))
                       (channels (events s2 ! e)) s2
                else s2)
      in fire_new thr (Event ''error'' (Error err (handler_e (events s3 ! e)))) [] s3)"

text \<open>
  \<open>processTask(event, task, parent)\<close>. The first argument bounds the depth of the
  recursion; \<open>None\<close> says that the call did not return within it. With no parent,
  \<open>parent.send\<close> raises \<open>AttributeError\<close>, which the bare \<open>except\<close> catches like any
  other exception.
\<close>

fun processTask ::
  "nat \<Rightarrow> 'u env \<Rightarrow> thread \<Rightarrow> eid \<Rightarrow> gid \<Rightarrow> gid option \<Rightarrow> 'u mstate \<Rightarrow> 'u mstate option" where
  "processTask 0 env thr e t parent s = None"
| "processTask (Suc n) env thr e t parent s =
     (case next_g env t s of
        (StopIteration, s1) \<Rightarrow> Some (task_stopped thr e t parent s1)
      | (GenRaises x, s1) \<Rightarrow> Some (task_failed thr e t PNone x s1)
      | (Yields v, s1) \<Rightarrow>
          (case v of
             PCallValue cv \<Rightarrow>
               (let s2 = unregisterTask (Task3 e t parent) s1
                in case parent of
                     None \<Rightarrow> Some (task_failed thr e t v AttributeError s2)
                   | Some p \<Rightarrow>
                       (case send_g env p cv s2 of
                          (StopIteration, s3) \<Rightarrow> Some (task_stopped thr e t parent s3)
                        | (GenRaises x, s3) \<Rightarrow> Some (task_failed thr e t v x s3)
                        | (Yields v2, s3) \<Rightarrow>
                            (case v2 of
                               PGen g \<Rightarrow>
                                 processTask n env thr e g parent
                                   (registerTask (Task3 e g parent) s3)
                             | _ \<Rightarrow>
                                 (let s4 = upd_event e
                                             (\<lambda>y. y\<lparr>waitingHandlers := waitingHandlers y - 1\<rparr>) s3;
                                      s5 = (if v2 \<noteq> PNone
                                            then upd_event e (\<lambda>y. y\<lparr>v_value := v2\<rparr>) s4
                                            else s4)
                                  in Some (registerTask (Task2 e p) s5)))))
           | PGen g \<Rightarrow>
               processTask n env thr e g (Some t)
                 (unregisterTask (Task2 e t)
                    (registerTask (Task3 e g (Some t))
                       (upd_event e (\<lambda>y. y\<lparr>waitingHandlers := waitingHandlers y + 1\<rparr>) s1)))
           | PNone \<Rightarrow> Some s1
           | _ \<Rightarrow> Some (upd_event e (\<lambda>y. y\<lparr>v_value := v\<rparr>) s1)))"

subsection \<open>\<open>tick\<close> and \<open>stop\<close>\<close>

text \<open>The loop over the tick functions.\<close>

fun ticks_loop :: "'u env \<Rightarrow> thread \<Rightarrow> nat list \<Rightarrow> 'u mstate \<Rightarrow> exn + 'u mstate" where
  "ticks_loop env thr [] s = Inr s"
| "ticks_loop env thr (f # fs) s =
     (case call_tick env f s of
        (Returns v, s1) \<Rightarrow> ticks_loop env thr fs s1
      | (Raises x, s1) \<Rightarrow>
          if fatal x then Inl x
          else ticks_loop env thr fs
                 (fire_new thr (Event ''error'' (Error (PError x) None)) [] s1))"

text \<open>The loop over the tasks: \<open>self.processTask(*task)\<close>.\<close>

fun tasks_loop :: "nat \<Rightarrow> 'u env \<Rightarrow> thread \<Rightarrow> task list \<Rightarrow> 'u mstate \<Rightarrow> 'u mstate option" where
  "tasks_loop n env thr [] s = Some s"
| "tasks_loop n env thr (Task2 e t # ts) s =
     (case processTask n env thr e t None s of
        None \<Rightarrow> None
      | Some s1 \<Rightarrow> tasks_loop n env thr ts s1)"
| "tasks_loop n env thr (Task3 e t parent # ts) s =
     (case processTask n env thr e t parent s of
        None \<Rightarrow> None
      | Some s1 \<Rightarrow> tasks_loop n env thr ts s1)"

text \<open>
  \<open>tick\<close>. The time left of the \<open>GenerateEvents\<close> token is not modelled; the token is
  fired on \<open>"*"\<close> when the manager is running.
\<close>

definition tick :: "nat \<Rightarrow> 'u env \<Rightarrow> thread \<Rightarrow> 'u mstate \<Rightarrow> (exn + 'u mstate) option" where
  "tick n env thr s =
     (let s0 = s\<lparr>executing_thread := Some thr\<rparr>
      in case ticks_loop env thr (iter_k env (ticks s0)) s0 of
           Inl x \<Rightarrow> Some (Inl x)
         | Inr s1 \<Rightarrow>
             (case tasks_loop n env thr (iter_t env (tasks s1)) s1 of
                None \<Rightarrow> None
              | Some s2 \<Rightarrow>
                  (let s3 = (if running s2
                             then fire_new thr (Event ''generate_events'' GenerateEvents) [CStr ''*'']
                                    (if fallback_generator s2 then s2
                                     else (register_fallback env s2)\<lparr>fallback_generator := True\<rparr>)
                             else s2)
                   in if queue s3 \<noteq> []
                      then (case flush env thr s3 of
                              Inl x \<Rightarrow> Some (Inl x)
                            | Inr s4 \<Rightarrow> Some (Inr (s4\<lparr>executing_thread := None\<rparr>)))
                      else Some (Inr (s3\<lparr>executing_thread := None\<rparr>)))))"

text \<open>
  A Python object as \<open>isinstance\<close> sees it in \<open>stop\<close>: an entry of the queue, which is a
  tuple \<open>(event, channels)\<close>, or an event object.
\<close>

datatype pyobj = ObjTuple eid "chan list" | ObjEvent event

fun isinstance_GenerateEvents :: "pyobj \<Rightarrow> bool" where
  "isinstance_GenerateEvents (ObjEvent x) = (kind x = GenerateEvents)"
| "isinstance_GenerateEvents (ObjTuple e chs) = False"

text \<open>
  The loop of \<open>stop\<close> that cleans the queue: \<open>evt\<close> runs over the entries of the queue,
  the tuples that \<open>_fire\<close> appended.
\<close>

definition stop_queue :: "(eid \<times> chan list) list \<Rightarrow> (eid \<times> chan list) list" where
  "stop_queue q = filter (\<lambda>evt. \<not> isinstance_GenerateEvents (ObjTuple (fst evt) (snd evt))) q"

definition tick_again ::
  "nat \<Rightarrow> 'u env \<Rightarrow> thread \<Rightarrow> (exn + 'u mstate) option \<Rightarrow> (exn + 'u mstate) option" where
  "tick_again n env thr r =
     (case r of
        None \<Rightarrow> None
      | Some (Inl x) \<Rightarrow> Some (Inl x)
      | Some (Inr s) \<Rightarrow> tick n env thr s)"

text \<open>\<open>stop\<close>; the handle \<open>_task\<close> of the thread is not part of the state.\<close>

definition stop :: "nat \<Rightarrow> 'u env \<Rightarrow> thread \<Rightarrow> 'u mstate \<Rightarrow> (exn + 'u mstate) option" where
  "stop n env thr s =
     (if \<not> running s then Some (Inr s)
      else
        (let s1 = s\<lparr>running := False\<rparr>;
             s2 = s1\<lparr>queue := stop_queue (queue s1)\<rparr>;
             s3 = fire_new thr (Event ''stopped'' Stopped) [] s2
         in tick_again n env thr (tick_again n env thr (tick n env thr s3))))"

section \<open>Properties\<close>

subsection \<open>Objects used in the examples\<close>

definition h_ping :: handler where
  "h_ping = \<lparr>hid = 1, hname = ''on_ping'', names = [''ping''], channel = None, priority = 0,
             filter_h = False, event_h = False, self_channel = Some (Some ''app'')\<rparr>"

definition h_global :: handler where
  "h_global = \<lparr>hid = 2, hname = ''on_any'', names = [], channel = Some ''*'', priority = 0,
               filter_h = False, event_h = False, self_channel = Some None\<rparr>"

text \<open>The registry of a manager after \<open>__init__\<close>.\<close>

definition registry0 :: registry where
  "registry0 = \<lparr>globals_r = {}, handlers_r = Map.empty, attrs = init_attrs\<rparr>"

type_synonym hcache = "(string \<times> chan list) \<rightharpoonup> handler list"

definition cache1 :: hcache where
  "cache1 = [(''ping'', [CStr ''*'']) \<mapsto> []]"

subsection \<open>The registry: \<open>addHandler\<close> and \<open>removeHandler\<close>\<close>



lemma delattr_caught_fields [simp]:
  "globals_r (delattr_caught n r) = globals_r r"
  "handlers_r (delattr_caught n r) = handlers_r r"
  "attrs (delattr_caught n r) = (if n \<in> properties then attrs r else (attrs r)(n := None))"
  by (simp_all add: delattr_caught_def)





text \<open>
  Handlers named like an attribute of the manager, on the root after \<open>__init__\<close>: with
  the name \<open>_handlers\<close>, \<open>root\<close> or \<open>name\<close> \<open>addHandler\<close> raises \<open>AttributeError\<close>; with the
  name \<open>_globals\<close> the two calls raise nothing and leave the manager without its
  attribute \<open>_globals\<close>.
\<close>

lemma add_remove_own_attribute:
  "fst (addHandler True (h_ping\<lparr>hname := ''_handlers''\<rparr>) (registry0, cache1)) = Some AttributeError"
  "fst (addHandler True (h_ping\<lparr>hname := ''root''\<rparr>) (registry0, cache1)) = Some AttributeError"
  "addHandler True (h_ping\<lparr>hname := ''name''\<rparr>) (registry0, cache1) = (Some AttributeError, registry0, cache1)"
  "add_remove True (h_ping\<lparr>hname := ''_globals''\<rparr>) (registry0, cache1)
     = (None, registry0\<lparr>attrs := init_attrs(''_globals'' := None)\<rparr>, Map.empty)"
proof -
  have o: "init_attrs ''_globals'' = Some Own" "init_attrs ''root'' = Some Own"
    "init_attrs ''_cache'' = Some Own" "init_attrs ''_handlers'' = Some Own"
    by (simp_all add: init_attrs_def init_names_def)
  show "fst (addHandler True (h_ping\<lparr>hname := ''_handlers''\<rparr>) (registry0, cache1)) = Some AttributeError"
    by (simp add: addHandler_def Let_def h_ping_def registry0_def properties_def o)
  show "fst (addHandler True (h_ping\<lparr>hname := ''root''\<rparr>) (registry0, cache1)) = Some AttributeError"
    by (simp add: addHandler_def clear_root_cache_def Let_def h_ping_def registry0_def properties_def o)
  show "addHandler True (h_ping\<lparr>hname := ''name''\<rparr>) (registry0, cache1) = (Some AttributeError, registry0, cache1)"
    by (simp add: addHandler_def Let_def h_ping_def properties_def)
  show "add_remove True (h_ping\<lparr>hname := ''_globals''\<rparr>) (registry0, cache1)
     = (None, registry0\<lparr>attrs := init_attrs(''_globals'' := None)\<rparr>, Map.empty)"
    by (simp add: add_remove_def removeHandler_def addHandler_def clear_root_cache_def Let_def
        setdefault_add_def h_ping_def registry0_def properties_def o)
qed

text \<open>
  Claim C9, as amended. On a manager that has its attribute \<open>_handlers\<close>,
  \<open>removeHandler(h, event)\<close> for a handler that is not in the bucket of \<open>event\<close>,
  because the bucket is missing or does not hold it, raises \<open>KeyError\<close>: the lookup and
  \<open>set.remove\<close> are outside the \<open>try\<close>. The registry is as it was and the cache is not
  cleared. What is tolerated is a missing attribute in \<open>delattr\<close>: when the handler is
  the only one of the bucket and the manager has no attribute \<open>__name__\<close> of the
  handler, the call raises nothing, deletes the bucket and clears the cache.
\<close>

theorem removeHandler_unregistered:
  assumes "attrs r ''_handlers'' = Some Own"
  shows "(handlers_r r name = None \<or> (\<exists>S. handlers_r r name = Some S \<and> method \<notin> S) \<longrightarrow>
            removeHandler is_root method (Some name) (r, c) = (Some KeyError, r, c)) \<and>
         (handlers_r r name = Some {method} \<and> attrs r (hname method) = None \<and>
          attrs r ''root'' = Some Own \<and> (is_root \<longrightarrow> attrs r ''_cache'' = Some Own) \<longrightarrow>
            removeHandler is_root method (Some name) (r, c)
              = (None, r\<lparr>handlers_r := (handlers_r r)(name := None)\<rparr>, Map.empty))"
proof (intro conjI impI)
  assume "handlers_r r name = None \<or> (\<exists>S. handlers_r r name = Some S \<and> method \<notin> S)"
  then show "removeHandler is_root method (Some name) (r, c) = (Some KeyError, r, c)"
    using assms by (auto simp: removeHandler_def)
next
  assume a: "handlers_r r name = Some {method} \<and> attrs r (hname method) = None \<and>
          attrs r ''root'' = Some Own \<and> (is_root \<longrightarrow> attrs r ''_cache'' = Some Own)"
  let ?r1 = "r\<lparr>handlers_r := (handlers_r r)(name := None)\<rparr>"
  have "(attrs r)(hname method := None) = attrs r" using a by (simp add: fun_upd_idem_iff)
  then have d: "delattr_caught (hname method) ?r1 = ?r1"
    by (simp add: delattr_caught_def)
  have l: "remove_loop method [name] r = (None, ?r1)"
    using assms a by (simp add: d)
  have c: "clear_root_cache is_root (?r1, c) = (None, ?r1, Map.empty)"
    using a by (auto simp: clear_root_cache_def)
  show "removeHandler is_root method (Some name) (r, c) = (None, ?r1, Map.empty)"
    unfolding removeHandler_def Let_def by (simp add: l c del: remove_loop.simps)
qed

theorem removeHandler_unregistered_witness:
  "removeHandler True h_ping (Some ''ping'') (registry0, cache1) = (Some KeyError, registry0, cache1) \<and>
   removeHandler True h_ping (Some ''ping'') (registry0\<lparr>handlers_r := [''ping'' \<mapsto> {h_ping}]\<rparr>, cache1)
     = (None, registry0, Map.empty)"
proof -
  have o: "init_attrs ''_handlers'' = Some Own" "init_attrs ''root'' = Some Own"
    "init_attrs ''_cache'' = Some Own" "init_attrs ''on_ping'' = None"
    by (simp_all add: init_attrs_def init_names_def)
  have 1: "attrs registry0 ''_handlers'' = Some Own" by (simp add: registry0_def o)
  have 2: "attrs (registry0\<lparr>handlers_r := [''ping'' \<mapsto> {h_ping}]\<rparr>) ''_handlers'' = Some Own"
    by (simp add: registry0_def o)
  have a: "removeHandler True h_ping (Some ''ping'') (registry0, cache1) = (Some KeyError, registry0, cache1)"
    using removeHandler_unregistered[OF 1, of "''ping''" h_ping True cache1]
    by (simp add: registry0_def)
  have b: "removeHandler True h_ping (Some ''ping'') (registry0\<lparr>handlers_r := [''ping'' \<mapsto> {h_ping}]\<rparr>, cache1)
     = (None, registry0, Map.empty)"
    using removeHandler_unregistered[OF 2, of "''ping''" h_ping True cache1]
    by (simp add: registry0_def o h_ping_def)
  show ?thesis using a b by simp
qed

theorem removeHandler_unregistered_counterexample:
  "fst (removeHandler True h_ping (Some ''ping'') (registry0, cache1)) = Some KeyError \<and>
   removeHandler True h_ping (Some ''ping'') (registry0, cache1) \<noteq> (None, registry0, Map.empty) \<and>
   fst (removeHandler True h_ping (Some ''ping'')
          (registry0\<lparr>handlers_r := [''ping'' \<mapsto> {h_global}]\<rparr>, cache1)) = Some KeyError"
proof -
  have o: "init_attrs ''_handlers'' = Some Own"
    by (simp add: init_attrs_def init_names_def)
  show ?thesis
    by (simp add: removeHandler_def registry0_def o h_ping_def h_global_def)
qed

text \<open>
  With two names, the first round of the loop has deleted a bucket and the attribute
  when the second raises: the exception leaves the registry changed.
\<close>

lemma removeHandler_partial:
  "removeHandler True (h_ping\<lparr>names := [''ping'', ''pong'']\<rparr>) None
     (registry0\<lparr>handlers_r := [''ping'' \<mapsto> {h_ping\<lparr>names := [''ping'', ''pong'']\<rparr>}],
                attrs := init_attrs(''on_ping'' \<mapsto> Bound (h_ping\<lparr>names := [''ping'', ''pong'']\<rparr>))\<rparr>, cache1)
     = (Some KeyError, registry0, cache1)"
proof -
  have o: "init_attrs ''_handlers'' = Some Own" "init_attrs ''on_ping'' = None"
    by (simp_all add: init_attrs_def init_names_def)
  have "(init_attrs(''on_ping'' \<mapsto> Bound (h_ping\<lparr>names := [''ping'', ''pong'']\<rparr>)))(''on_ping'' := None) = init_attrs"
    using o(2) by (simp add: fun_upd_idem_iff)
  then show ?thesis
    by (simp add: removeHandler_def registry0_def o h_ping_def properties_def delattr_caught_def)
qed

subsection \<open>Handler resolution, dispatch order, failures and \<open>stop\<close>\<close>

lemma getHandlers_body_unfold:
  "getHandlers_body self name ch =
     own_handlers (reg self) name ch \<union> globals_r (reg self) \<union>
     (if \<not> is_instance ch then (\<Union>c\<in>set (components self). getHandlers_body c name ch) else {})"
  by (cases self) simp

lemma own_handlers_instance:
  "own_handlers r name (CInst m) = bucket r ''*'' \<union> bucket r name"
  by (auto simp: own_handlers_def)

text \<open>
  Claim C8, as amended. For a channel that is \<open>None\<close> or a string (the wildcard
  included), \<open>getHandlers\<close> is the union of the manager's own handlers that pass the
  channel test, of its globals, and of the results of \<open>getHandlers\<close> on every child for
  the same name and channel. For a manager instance as the channel the call goes to
  that manager (or stays, when it is \<open>self\<close>) and returns all the handlers of its
  \<open>"*"\<close> bucket and of the bucket of the name, with its globals; no child is visited.
\<close>

theorem getHandlers_cases:
  "getHandlers self name ch =
     (case ch of
        CInst target \<Rightarrow>
          bucket (reg (if mid target \<noteq> mid self then target else self)) ''*'' \<union>
          bucket (reg (if mid target \<noteq> mid self then target else self)) name \<union>
          globals_r (reg (if mid target \<noteq> mid self then target else self))
      | _ \<Rightarrow>
          own_handlers (reg self) name ch \<union> globals_r (reg self) \<union>
          (\<Union>c\<in>set (components self). getHandlers c name ch))"
proof (cases ch)
  case CNone
  then show ?thesis
    by (simp add: getHandlers_def getHandlers_body_unfold[of self])
next
  case (CStr c)
  then show ?thesis
    by (simp add: getHandlers_def getHandlers_body_unfold[of self])
next
  case (CInst target)
  then show ?thesis
    by (simp add: getHandlers_def getHandlers_body_unfold[of self] getHandlers_body_unfold[of target]
        own_handlers_instance)
qed

definition h_hello :: handler where
  "h_hello = \<lparr>hid = 3, hname = ''hello'', names = [''hello''], channel = None, priority = 0,
              filter_h = False, event_h = False, self_channel = Some (Some ''app'')\<rparr>"

definition h_sub :: handler where
  "h_sub = \<lparr>hid = 4, hname = ''hello'', names = [''hello''], channel = None, priority = 0,
              filter_h = False, event_h = False, self_channel = Some (Some ''sub'')\<rparr>"

definition sub0 :: manager where
  "sub0 = Manager 2 (Some (Some ''sub''))
            \<lparr>globals_r = {}, handlers_r = [''hello'' \<mapsto> {h_sub}], attrs = init_attrs(''hello'' \<mapsto> Bound h_sub)\<rparr> []"

definition app0 :: manager where
  "app0 = Manager 1 (Some (Some ''app''))
            \<lparr>globals_r = {}, handlers_r = [''hello'' \<mapsto> {h_hello}], attrs = init_attrs(''hello'' \<mapsto> Bound h_hello)\<rparr> [sub0]"

definition root0 :: manager where
  "root0 = Manager 0 None
             \<lparr>globals_r = {h_global}, handlers_r = Map.empty, attrs = init_attrs(''on_any'' \<mapsto> Bound h_global)\<rparr> [app0]"

theorem getHandlers_cases_witness:
  "getHandlers root0 ''hello'' (CInst app0) = {h_hello} \<and>
   getHandlers app0 ''hello'' (CInst app0) = {h_hello} \<and>
   getHandlers root0 ''hello'' (CStr ''*'') = {h_sub, h_hello, h_global}"
  by (subst getHandlers_cases)
     (simp add: getHandlers_def root0_def app0_def sub0_def bucket_def own_handlers_def)

theorem getHandlers_instance_counterexample:
  "getHandlers root0 ''hello'' (CInst app0) \<noteq>
     own_handlers (reg root0) ''hello'' (CInst app0) \<union> globals_r (reg root0) \<union>
     (\<Union>c\<in>set (components root0). getHandlers c ''hello'' (CInst app0))"
proof -
  have "h_global \<notin> getHandlers root0 ''hello'' (CInst app0)"
    by (simp add: getHandlers_def root0_def app0_def own_handlers_def bucket_def h_global_def h_hello_def)
  moreover have "h_global \<in> globals_r (reg root0)"
    by (simp add: root0_def)
  ultimately show ?thesis by blast
qed

text \<open>
  Claim C7: what the code does. The loop of \<open>stop\<close> tests the entries of the queue,
  which are tuples, with \<open>isinstance(evt, GenerateEvents)\<close>; no entry passes the test,
  so the queue that \<open>stop\<close> puts back is the queue it took, pending \<open>GenerateEvents\<close>
  tokens included.
\<close>

theorem stop_queue_keeps_all: "stop_queue q = q"
  by (simp add: stop_queue_def)

lemma sorted_reverse_sorted:
  "sorted_wrt (\<lambda>a b. k b \<le> k a) (sorted_reverse k xs)"
proof -
  have "sorted (map k (sort_key k (rev xs)))" by simp
  then have "sorted_wrt (\<lambda>a b. k a \<le> k b) (sort_key k (rev xs))"
    by (simp add: sorted_map)
  then show ?thesis
    by (simp add: sorted_reverse_def sorted_wrt_rev)
qed

lemma sorted_reverse_mset: "mset (sorted_reverse k xs) = mset xs"
  by (simp add: sorted_reverse_def)

lemma invoked_before_sorted:
  "sorted_wrt P xs \<Longrightarrow> invoked_before xs a b \<Longrightarrow> P a b"
  by (induction xs) auto

lemma invoked_before_total:
  "a \<in> set xs \<Longrightarrow> b \<in> set xs \<Longrightarrow> a \<noteq> b \<Longrightarrow> invoked_before xs a b \<or> invoked_before xs b a"
  by (induction xs) auto

lemma dispatch_loop_called:
  "dispatch_loop env thr e eargs hs error called0 s = Inr (error', called, s') \<Longrightarrow>
   \<exists>new. called = called0 @ new \<and> map fst new = take (length new) hs \<and>
     (\<forall>j<length new. filter_h (fst (new ! j)) \<and> truthy (snd (new ! j)) \<longrightarrow> Suc j = length new)"
proof (induction hs arbitrary: error called0 s)
  case Nil
  then show ?case by simp
next
  case (Cons h hs)
  let ?s0 = "upd_event e (\<lambda>y. y\<lparr>handler_e := Some h\<rparr>) s"
  from Cons.prems obtain v err1 s1 where inv: "invoke env thr e eargs h error ?s0 = Inr (v, err1, s1)"
    by (auto split: sum.splits)
  show ?case
  proof (cases "truthy v \<and> filter_h h")
    case True
    with Cons.prems inv have "called = called0 @ [(h, v)]" by simp
    then show ?thesis by (intro exI[of _ "[(h, v)]"]) simp
  next
    case False
    with Cons.prems inv have
      "dispatch_loop env thr e eargs hs err1 (called0 @ [(h, v)]) (store_value e v s1) = Inr (error', called, s')"
      by (simp add: Let_def)
    from Cons.IH[OF this] obtain new where new: "called = (called0 @ [(h, v)]) @ new"
      "map fst new = take (length new) hs"
      "\<forall>j<length new. filter_h (fst (new ! j)) \<and> truthy (snd (new ! j)) \<longrightarrow> Suc j = length new"
      by blast
    have "\<forall>j<length ((h, v) # new). filter_h (fst (((h, v) # new) ! j)) \<and> truthy (snd (((h, v) # new) ! j))
        \<longrightarrow> Suc j = length ((h, v) # new)"
    proof (intro allI impI)
      fix j assume j: "j < length ((h, v) # new)"
        and f: "filter_h (fst (((h, v) # new) ! j)) \<and> truthy (snd (((h, v) # new) ! j))"
      show "Suc j = length ((h, v) # new)"
      proof (cases j)
        case 0
        with f False show ?thesis by simp
      next
        case (Suc j')
        with j f new(3) show ?thesis by simp
      qed
    qed
    then show ?thesis using new(1,2) by (intro exI[of _ "(h, v) # new"]) simp
  qed
qed

text \<open>
  Claim C5. When the handler at place \<open>i\<close> of the calls of one dispatch is a filter
  and its call left a truthy value, it is the last handler called: the handlers called
  are the first \<open>i + 1\<close> handlers of the sorted list, and those behind it are not
  called.
\<close>

theorem filter_short_circuit:
  assumes "dispatch_loop env thr e eargs hs error [] s = Inr (error', called, s')"
    and "i < length called" and "filter_h (fst (called ! i))" and "truthy (snd (called ! i))"
  shows "Suc i = length called \<and> map fst called = take (Suc i) hs"
proof -
  from dispatch_loop_called[OF assms(1)] have
    p: "map fst called = take (length called) hs"
    and l: "\<forall>j<length called. filter_h (fst (called ! j)) \<and> truthy (snd (called ! j)) \<longrightarrow> Suc j = length called"
    by auto
  from l assms(2,3,4) have "Suc i = length called" by blast
  then show ?thesis using p by simp
qed

definition cache_sorted :: "'u mstate \<Rightarrow> bool" where
  "cache_sorted s = (\<forall>k hs. cache s k = Some hs \<longrightarrow> sorted_wrt (\<lambda>a b. sortkey b \<le> sortkey a) hs)"

lemma dispatcher_handlers_sorted:
  assumes "cache_sorted s" and "dispatcher_handlers env e chs s = (hs, s1)"
  shows "sorted_wrt (\<lambda>a b. sortkey b \<le> sortkey a) hs \<and> cache_sorted s1"
proof (cases "cache s (ename (events s ! e), chs)")
  case None
  with assms(2) have hs: "hs = sorted_reverse sortkey
       (concat (map (\<lambda>c. iter_h env (getHandlers (root s) (ename (events s ! e)) c)) chs))"
    and s1: "s1 = s\<lparr>cache := (cache s)((ename (events s ! e), chs) \<mapsto> hs)\<rparr>"
    by (auto simp: dispatcher_handlers_def Let_def)
  have "sorted_wrt (\<lambda>a b. sortkey b \<le> sortkey a) hs" unfolding hs by (rule sorted_reverse_sorted)
  moreover from this assms(1) have "cache_sorted s1"
    unfolding s1 cache_sorted_def by auto
  ultimately show ?thesis by simp
next
  case (Some l)
  with assms(2) have "hs = l" "s1 = s" by (auto simp: dispatcher_handlers_def)
  with Some assms(1) show ?thesis by (auto simp: cache_sorted_def)
qed

text \<open>
  Claim C4, as amended. On a cache miss the list of handlers is the concatenated
  results of \<open>getHandlers\<close> sorted with \<open>sorted(..., key=_sortkey, reverse=True)\<close>;
  the list, cached or not, is in descending order of \<open>(priority, filter)\<close>. If \<open>a\<close> is
  called before \<open>b\<close> then the key of \<open>a\<close> is at least the key of \<open>b\<close>; if both are
  called and the key of \<open>a\<close> is greater, then \<open>a\<close> is called before \<open>b\<close> and never
  after it. Handlers with equal keys are called in either order. The priorities are
  numbers that Python orders: integers and floats other than \<open>nan\<close>.
\<close>

theorem dispatch_order:
  assumes "cache_sorted s"
    and "dispatcher_handlers env e chs s = (hs, s1)"
    and "dispatch_loop env thr e eargs hs error [] s1 = Inr (error', called, s2)"
  shows "(cache s (ename (events s ! e), chs) = None \<longrightarrow>
            hs = sorted_reverse sortkey
                   (concat (map (\<lambda>c. iter_h env (getHandlers (root s) (ename (events s ! e)) c)) chs))) \<and>
         sorted_wrt (\<lambda>a b. sortkey b \<le> sortkey a) hs \<and>
         (invoked_before (map fst called) a b \<longrightarrow> sortkey b \<le> sortkey a) \<and>
         (a \<in> fst ` set called \<and> b \<in> fst ` set called \<and> sortkey b < sortkey a \<longrightarrow>
            invoked_before (map fst called) a b \<and> \<not> invoked_before (map fst called) b a)"
proof -
  have srt: "sorted_wrt (\<lambda>a b. sortkey b \<le> sortkey a) hs"
    using dispatcher_handlers_sorted[OF assms(1,2)] by simp
  from dispatch_loop_called[OF assms(3)] have p: "map fst called = take (length called) hs" by auto
  have sc: "sorted_wrt (\<lambda>a b. sortkey b \<le> sortkey a) (map fst called)"
    unfolding p using srt by (rule sorted_wrt_take)
  have 1: "invoked_before (map fst called) a b \<longrightarrow> sortkey b \<le> sortkey a"
    using invoked_before_sorted[OF sc] by blast
  have 2: "a \<in> fst ` set called \<and> b \<in> fst ` set called \<and> sortkey b < sortkey a \<longrightarrow>
            invoked_before (map fst called) a b \<and> \<not> invoked_before (map fst called) b a"
  proof (intro impI)
    assume h: "a \<in> fst ` set called \<and> b \<in> fst ` set called \<and> sortkey b < sortkey a"
    then have ne: "a \<noteq> b" by auto
    have nb: "\<not> invoked_before (map fst called) b a"
      using invoked_before_sorted[OF sc, of b a] h by auto
    from h have "a \<in> set (map fst called)" "b \<in> set (map fst called)" by auto
    from invoked_before_total[OF this ne] nb
    show "invoked_before (map fst called) a b \<and> \<not> invoked_before (map fst called) b a" by blast
  qed
  have 0: "cache s (ename (events s ! e), chs) = None \<longrightarrow>
            hs = sorted_reverse sortkey
                   (concat (map (\<lambda>c. iter_h env (getHandlers (root s) (ename (events s ! e)) c)) chs))"
    using assms(2) by (auto simp: dispatcher_handlers_def Let_def)
  show ?thesis using 0 srt 1 2 by blast
qed

definition h_filter :: handler where
  "h_filter = \<lparr>hid = 10, hname = ''check_ping'', names = [''ping''], channel = None, priority = 10,
               filter_h = True, event_h = False, self_channel = Some (Some ''*'')\<rparr>"

definition h_low :: handler where
  "h_low = \<lparr>hid = 11, hname = ''on_ping'', names = [''ping''], channel = None, priority = 1,
            filter_h = False, event_h = False, self_channel = Some (Some ''*'')\<rparr>"

definition h_fail :: handler where
  "h_fail = \<lparr>hid = 12, hname = ''op_a'', names = [''op''], channel = None, priority = 5,
             filter_h = False, event_h = True, self_channel = Some (Some ''*'')\<rparr>"

definition h_ok :: handler where
  "h_ok = \<lparr>hid = 13, hname = ''op_b'', names = [''op''], channel = None, priority = 1,
           filter_h = False, event_h = False, self_channel = Some (Some ''*'')\<rparr>"

definition h_guard :: handler where
  "h_guard = \<lparr>hid = 14, hname = ''guard'', names = [''job''], channel = None, priority = 3,
              filter_h = True, event_h = False, self_channel = Some (Some ''*'')\<rparr>"

definition h_job :: handler where
  "h_job = \<lparr>hid = 15, hname = ''job'', names = [''job''], channel = None, priority = 0,
            filter_h = False, event_h = False, self_channel = Some (Some ''*'')\<rparr>"

definition h_gen :: handler where
  "h_gen = \<lparr>hid = 16, hname = ''work'', names = [''work''], channel = None, priority = 0,
            filter_h = False, event_h = False, self_channel = Some (Some ''*'')\<rparr>"

definition call1 :: "handler \<Rightarrow> eid option \<Rightarrow> pyval list \<Rightarrow> unit mstate \<Rightarrow> outcome \<times> unit mstate" where
  "call1 h eo eargs s =
     (if hid h = 10 then (Returns (PBool True), s)
      else if hid h = 11 then (Returns (PStr ''unreached''), s)
      else if hid h = 12 then (Raises (Exception ''boom''), s)
      else if hid h = 13 then (Returns (PStr ''ok''), s)
      else if hid h = 14 then (Raises (Exception ''denied''), s)
      else if hid h = 16 then (Returns (PGen 0), s)
      else (Returns PNone, s))"

definition env1 :: "unit env" where
  "env1 = \<lparr>call = call1,
           call_tick = (\<lambda>f s. (Returns PNone, s)),
           next_g = (\<lambda>g s. (GenRaises (Exception ''boom''), s)),
           send_g = (\<lambda>g v s. (StopIteration, s)),
           iter_h = (\<lambda>S. filter (\<lambda>h. h \<in> S) [h_low, h_filter, h_ok, h_fail, h_job, h_guard, h_gen]),
           iter_t = (\<lambda>T. filter (\<lambda>t. t \<in> T) [Task2 0 0]),
           iter_k = (\<lambda>K. []),
           register_fallback = (\<lambda>s. s)\<rparr>"

definition root1 :: manager where
  "root1 = Manager 0 None
     \<lparr>globals_r = {},
      handlers_r = [''ping'' \<mapsto> {h_filter, h_low}, ''op'' \<mapsto> {h_fail, h_ok},
                    ''job'' \<mapsto> {h_guard, h_job}, ''work'' \<mapsto> {h_gen}],
      attrs = init_attrs\<rparr> []"

definition state1 :: "event \<Rightarrow> unit mstate" where
  "state1 x = \<lparr>root = root1, events = [x\<lparr>channels := [CStr ''*'']\<rparr>], queue = [],
              cache = Map.empty, tasks = {}, ticks = {}, currently_handling = Some 0,
              executing_thread = Some 0, running = True, fallback_generator = True, app = ()\<rparr>"

lemmas hdefs = h_filter_def h_low_def h_fail_def h_ok_def h_guard_def h_job_def h_gen_def

lemma handlers_op:
  "dispatcher_handlers env1 0 [CStr ''*''] (state1 ((Event ''op'' Plain)\<lparr>failure := True\<rparr>))
     = ([h_fail, h_ok], (state1 ((Event ''op'' Plain)\<lparr>failure := True\<rparr>))\<lparr>cache := [(''op'', [CStr ''*'']) \<mapsto> [h_fail, h_ok]]\<rparr>)"
  by (simp add: dispatcher_handlers_def state1_def Event_def env1_def root1_def getHandlers_def
      own_handlers_def bucket_def sorted_reverse_def sortkey_def hdefs Let_def)

lemma events_upd_event_nth:
  "events (upd_event e f s) ! i = (if i = e \<and> e < length (events s) then f (events s ! e) else events s ! i)"
  by (cases "e < length (events s)") (auto simp: upd_event_def nth_list_update list_update_beyond)

lemma upd_event_other [simp]:
  "queue (upd_event e f s) = queue s" "root (upd_event e f s) = root s"
  "cache (upd_event e f s) = cache s" "tasks (upd_event e f s) = tasks s"
  "currently_handling (upd_event e f s) = currently_handling s"
  "executing_thread (upd_event e f s) = executing_thread s"
  "running (upd_event e f s) = running s"
  by (simp_all add: upd_event_def)

lemma fire_length [simp]: "length (events (fire thr e chs s)) = length (events s)"
  by (simp add: fire_def Let_def split: option.splits)

lemma fire_queue [simp]: "queue (fire thr e chs s) = queue s @ [(e, chs)]"
  by (simp add: fire_def Let_def split: option.splits)

lemma fire_other [simp]:
  "root (fire thr e chs s) = root s" "cache (fire thr e chs s) = cache s"
  "tasks (fire thr e chs s) = tasks s"
  "currently_handling (fire thr e chs s) = currently_handling s"
  "executing_thread (fire thr e chs s) = executing_thread s"
  "running (fire thr e chs s) = running s"
  by (simp_all add: fire_def Let_def split: option.splits)

lemma fire_events_old:
  "i \<noteq> e \<Longrightarrow> (events (fire thr e chs s) ! i)\<lparr>effects := n\<rparr> = (events s ! i)\<lparr>effects := n\<rparr>"
  by (simp add: fire_def Let_def events_upd_event_nth split: option.splits)

lemma fire_events_new_kind:
  "kind (events (fire thr e chs s) ! e) = kind (events s ! e)"
  by (simp add: fire_def Let_def events_upd_event_nth split: option.splits)

lemma fire_new_length [simp]:
  "length (events (fire_new thr x chs s)) = Suc (length (events s))"
  by (simp add: fire_new_def new_event_def fireEvent_def Let_def)

lemma fire_new_queue [simp]:
  "queue (fire_new thr x chs s) = queue s @ [(length (events s), fire_channels (mchannel (root s)) x chs)]"
  by (simp add: fire_new_def new_event_def fireEvent_def Let_def)

lemma fire_new_other [simp]:
  "root (fire_new thr x chs s) = root s" "cache (fire_new thr x chs s) = cache s"
  "tasks (fire_new thr x chs s) = tasks s"
  "currently_handling (fire_new thr x chs s) = currently_handling s"
  "executing_thread (fire_new thr x chs s) = executing_thread s"
  "running (fire_new thr x chs s) = running s"
  by (simp_all add: fire_new_def new_event_def fireEvent_def Let_def)

lemma fire_new_events_old:
  "i < length (events s) \<Longrightarrow>
   (events (fire_new thr x chs s) ! i)\<lparr>effects := n\<rparr> = (events s ! i)\<lparr>effects := n\<rparr>"
  by (simp add: fire_new_def new_event_def fireEvent_def Let_def fire_events_old
      events_upd_event_nth nth_append)

lemma fire_new_kind:
  "kind (events (fire_new thr x chs s) ! length (events s)) = kind x"
  by (simp add: fire_new_def new_event_def fireEvent_def Let_def fire_events_new_kind
      events_upd_event_nth)

lemma field_of_effects_upd:
  "a\<lparr>effects := n\<rparr> = b\<lparr>effects := n\<rparr> \<Longrightarrow>
     kind a = kind b \<and> v_errors a = v_errors b \<and> v_value a = v_value b \<and> failure a = failure b
     \<and> channels a = channels b \<and> waitingHandlers a = waitingHandlers b \<and> cause a = cause b
     \<and> complete a = complete b \<and> ename a = ename b \<and> success a = success b
     \<and> alert_done a = alert_done b \<and> v_promise a = v_promise b \<and> v_informed a = v_informed b
     \<and> handler_e a = handler_e b \<and> args a = args b
     \<and> success_channels a = success_channels b \<and> complete_channels a = complete_channels b"
  by (cases a, cases b) simp

lemmas fire_new_fields = fire_new_events_old[THEN field_of_effects_upd]

definition fired_since :: "'u mstate \<Rightarrow> 'u mstate \<Rightarrow> (ekind \<times> chan list) list" where
  "fired_since s s' = map (\<lambda>(i, chs). (kind (events s' ! i), chs)) (drop (length (queue s)) (queue s'))"

lemma dispatch_loop_fatal:
  "dispatch_loop env thr e eargs hs error called s = Inl y \<Longrightarrow> fatal y"
proof (induction hs arbitrary: error called s)
  case Nil
  then show ?case by simp
next
  case (Cons h hs)
  let ?s0 = "upd_event e (\<lambda>y. y\<lparr>handler_e := Some h\<rparr>) s"
  show ?case
  proof (cases "invoke env thr e eargs h error ?s0")
    case (Inl x)
    with Cons.prems have "x = y" by simp
    moreover from Inl have "fatal x"
      by (auto simp: invoke_def Let_def split: prod.splits outcome.splits if_splits)
    ultimately show ?thesis by simp
  next
    case (Inr r)
    obtain v err1 s1 where r: "r = (v, err1, s1)" by (cases r) auto
    with Inr Cons.prems have "\<not> (truthy v \<and> filter_h h)"
      by (auto simp: Let_def)
    with Inr r Cons.prems have
      "dispatch_loop env thr e eargs hs err1 (called @ [(h, v)]) (store_value e v s1) = Inl y"
      by (simp add: Let_def)
    then show ?thesis by (rule Cons.IH)
  qed
qed

lemma dispatcher_fatal:
  "dispatcher env thr e chs s = Inl y \<Longrightarrow> fatal y"
  by (auto simp: dispatcher_def Let_def split: prod.splits sum.splits dest: dispatch_loop_fatal)

lemma invoke_captures:
  assumes "call env h (if event_h h then Some e else None) eargs s = (Raises x, s1)"
    and "e < length (events s1)"
  shows "if fatal x then invoke env thr e eargs h error s = Inl x
         else (\<exists>s'. invoke env thr e eargs h error s = Inr (PError x, Some (PError x), s') \<and>
                 length (events s1) \<le> length (events s') \<and>
                 v_errors (events s' ! e) \<and>
                 fired_since s1 s' =
                   (if failure (events s1 ! e)
                    then [(Failure e (PError x),
                           fire_channels (mchannel (root s1))
                             (derived (events s1 ! e) ''failure'' (Failure e (PError x)))
                             (channels (events s1 ! e)))]
                    else []) @
                   [(Error (PError x) (Some h),
                     fire_channels (mchannel (root s1)) (Event ''error'' (Error (PError x) (Some h))) [])])"
proof (cases "fatal x")
  case True
  then show ?thesis using assms(1) by (simp add: invoke_def)
next
  case False
  define s2 where "s2 = upd_event e (\<lambda>y. y\<lparr>v_errors := True\<rparr>) s1"
  define xf where "xf = derived (events s2 ! e) ''failure'' (Failure e (PError x))"
  define s3 where "s3 = (if failure (events s2 ! e)
                       then fire_new thr xf (channels (events s2 ! e)) s2 else s2)"
  define xe where "xe = Event ''error'' (Error (PError x) (Some h))"
  define s4 where "s4 = fire_new thr xe [] s3"
  have inv: "invoke env thr e eargs h error s = Inr (PError x, Some (PError x), s4)"
    using assms(1) False by (simp add: invoke_def Let_def s2_def s3_def s4_def xf_def xe_def)
  have e2: "events s2 ! e = (events s1 ! e)\<lparr>v_errors := True\<rparr>"
    using assms(2) by (simp add: s2_def events_upd_event_nth)
  have l2: "length (events s2) = length (events s1)" by (simp add: s2_def)
  have xf': "xf = derived (events s1 ! e) ''failure'' (Failure e (PError x))"
    by (simp add: xf_def e2 derived_def)
  have l3: "length (events s3) = (if failure (events s1 ! e) then Suc (length (events s1)) else length (events s1))"
    by (simp add: s3_def e2 l2)
  have e3v: "v_errors (events s3 ! e)"
  proof (cases "failure (events s1 ! e)")
    case True
    have "e < length (events s2)" using assms(2) l2 by simp
    from fire_new_fields[OF this, of thr xf "channels (events s2 ! e)"] e2
    show ?thesis using True by (simp add: s3_def)
  next
    case False
    then show ?thesis by (simp add: s3_def e2)
  qed
  have e3: "e < length (events s3)" using assms(2) l3 by simp
  have v4: "v_errors (events s4 ! e)"
    using fire_new_fields[OF e3, of thr xe "[]"] e3v by (simp add: s4_def)
  have r3: "root s3 = root s1" by (simp add: s3_def s2_def)
  have q3: "queue s3 = queue s1 @ (if failure (events s1 ! e)
        then [(length (events s1), fire_channels (mchannel (root s1)) xf (channels (events s1 ! e)))] else [])"
    by (simp add: s3_def e2 l2) (simp add: s2_def)
  have q4: "queue s4 = queue s3 @ [(length (events s3), fire_channels (mchannel (root s1)) xe [])]"
    by (simp add: s4_def r3)
  have k4e: "kind (events s4 ! length (events s3)) = kind xe"
    unfolding s4_def by (rule fire_new_kind)
  have k4f: "failure (events s1 ! e) \<Longrightarrow> kind (events s4 ! length (events s1)) = kind xf"
  proof -
    assume f: "failure (events s1 ! e)"
    then have s3': "s3 = fire_new thr xf (channels (events s2 ! e)) s2" by (simp add: s3_def e2)
    have "length (events s1) < length (events s3)" using f l3 by simp
    from fire_new_fields[OF this, of thr xe "[]"]
    have "kind (events s4 ! length (events s1)) = kind (events s3 ! length (events s1))"
      by (simp add: s4_def)
    also have "\<dots> = kind xf" unfolding s3' using fire_new_kind[of thr xf "channels (events s2 ! e)" s2] l2 by simp
    finally show ?thesis .
  qed
  have fs: "fired_since s1 s4 =
                   (if failure (events s1 ! e)
                    then [(Failure e (PError x),
                           fire_channels (mchannel (root s1)) xf (channels (events s1 ! e)))]
                    else []) @
                   [(Error (PError x) (Some h), fire_channels (mchannel (root s1)) xe [])]"
  proof (cases "failure (events s1 ! e)")
    case True
    then show ?thesis
      using k4f[OF True] k4e l3
      by (simp add: fired_since_def q4 q3 xf_def xe_def derived_def Event_def)
  next
    case False
    then show ?thesis
      using k4e l3
      by (simp add: fired_since_def q4 q3 xe_def Event_def)
  qed
  have l4: "length (events s1) \<le> length (events s4)" using l3 by (simp add: s4_def)
  show ?thesis using False inv v4 fs l4 by (simp add: xf' xe_def)
qed


definition extends :: "'u mstate \<Rightarrow> 'u mstate \<Rightarrow> bool" where
  "extends s s' =
     (length (events s) \<le> length (events s') \<and> (\<exists>q. queue s' = queue s @ q) \<and>
      (\<forall>i<length (events s).
         kind (events s' ! i) = kind (events s ! i) \<and>
         v_errors (events s' ! i) = v_errors (events s ! i) \<and>
         v_value (events s' ! i) = v_value (events s ! i)))"

lemma extends_refl: "extends s s"
  by (simp add: extends_def)

lemma extends_trans: "extends s s1 \<Longrightarrow> extends s1 s2 \<Longrightarrow> extends s s2"
  unfolding extends_def by (elim conjE exE) (auto simp: le_trans)

lemma extends_fire_new: "extends s (fire_new thr x chs s)"
  using fire_new_fields[of _ s thr x chs] by (simp add: extends_def)

lemma extends_upd:
  assumes "\<And>y. kind (f y) = kind y \<and> v_errors (f y) = v_errors y \<and> v_value (f y) = v_value y"
  shows "extends s (upd_event e f s)"
  using assms by (simp add: extends_def events_upd_event_nth)

lemma extends_field: "extends s (s\<lparr>currently_handling := c\<rparr>)"
  by (simp add: extends_def)

lemma eventDone_loop_extends: "extends s (eventDone_loop thr n e s)"
proof (induction thr n e s rule: eventDone_loop.induct)
  case (1 thr n e s)
  show ?case
  proof (cases "e < n \<and> n \<le> length (events s)")
    case False
    then have "eventDone_loop thr n e s = s"
      by (subst eventDone_loop.simps) (simp only: if_False)
    then show ?thesis by (simp add: extends_refl)
  next
    case en: True
    show ?thesis
    proof (cases "cause (events s ! e)")
      case None
      then have "eventDone_loop thr n e s = s" using en by (subst eventDone_loop.simps) simp
      then show ?thesis by (simp add: extends_refl)
    next
      case (Some c)
      define s1 where "s1 = upd_event e (\<lambda>x. x\<lparr>effects := effects x - 1\<rparr>) s"
      have x1: "extends s s1" unfolding s1_def by (rule extends_upd) simp
      show ?thesis
      proof (cases "0 < effects (events s1 ! e)")
        case True
        then have "eventDone_loop thr n e s = s1"
          using en Some by (subst eventDone_loop.simps) (simp add: s1_def[symmetric] Let_def)
        then show ?thesis using x1 by simp
      next
        case nf: False
        define s2 where "s2 = (if complete (events s1 ! e)
                              then fire_new thr
                                     (derived (events s1 ! e) ''complete''
                                        (Complete e (v_value (events s1 ! e))))
                                     (case complete_channels (events s1 ! e) of
                                        None \<Rightarrow> channels (events s1 ! e)
                                      | Some cs \<Rightarrow> cs)
                                     s1
                              else s1)"
        define s3 where "s3 = upd_event e (\<lambda>x. x\<lparr>cause := None\<rparr>) s2"
        have r: "eventDone_loop thr n e s = eventDone_loop thr n c s3"
          using en Some nf
          by (subst eventDone_loop.simps) (simp add: s1_def[symmetric] Let_def s2_def s3_def)
        have x2: "extends s1 s2" by (simp add: s2_def extends_refl extends_fire_new)
        have x3: "extends s2 s3" unfolding s3_def by (rule extends_upd) simp
        from "1.IH"[OF en Some s1_def nf s2_def s3_def]
        have "extends s3 (eventDone_loop thr n c s3)" .
        then show ?thesis unfolding r using x1 x2 x3 by (blast intro: extends_trans)
      qed
    qed
  qed
qed

lemma eventDone_extends: "extends s (eventDone thr e error s)"
proof -
  define s1 where "s1 = (if alert_done (events s ! e)
                   then fire_new thr
                          (derived (events s ! e) ''done'' (Done e (v_value (events s ! e))))
                          (channels (events s ! e)) s
                   else s)"
  define s2 where "s2 = (if error = None \<and> success (events s1 ! e)
                   then fire_new thr
                          (derived (events s1 ! e) ''success'' (Success e (v_value (events s1 ! e))))
                          (case success_channels (events s1 ! e) of
                             None \<Rightarrow> channels (events s1 ! e)
                           | Some cs \<Rightarrow> cs)
                          s1
                   else s1)"
  have x1: "extends s s1" by (simp add: s1_def extends_refl extends_fire_new)
  have x2: "extends s1 s2" by (simp add: s2_def extends_refl extends_fire_new)
  have x3: "extends s2 (eventDone_loop thr (length (events s2)) e s2)" by (rule eventDone_loop_extends)
  have "eventDone thr e error s =
          (if waitingHandlers (events s ! e) \<noteq> 0 then s
           else eventDone_loop thr (length (events s2)) e s2)"
    by (simp only: eventDone_def Let_def s2_def s1_def)
  moreover have "extends s (eventDone_loop thr (length (events s2)) e s2)"
    using x1 x2 x3 by (blast intro: extends_trans)
  ultimately show ?thesis by (simp add: extends_refl)
qed

lemma dispatch_loop_append:
  assumes "dispatch_loop env thr e eargs pre error called s = Inr (err0, called0, s0)"
    and "\<forall>(h', v)\<in>set (drop (length called) called0). \<not> (truthy v \<and> filter_h h')"
  shows "dispatch_loop env thr e eargs (pre @ rest) error called s
           = dispatch_loop env thr e eargs rest err0 called0 s0"
  using assms
proof (induction pre arbitrary: error called s)
  case Nil
  then show ?case by simp
next
  case (Cons h' pre)
  let ?s = "upd_event e (\<lambda>y. y\<lparr>handler_e := Some h'\<rparr>) s"
  from Cons.prems(1) obtain v err1 s1 where inv: "invoke env thr e eargs h' error ?s = Inr (v, err1, s1)"
    by (auto split: sum.splits)
  from dispatch_loop_called[OF Cons.prems(1)] obtain new where
    new: "called0 = called @ new" by blast
  show ?case
  proof (cases "truthy v \<and> filter_h h'")
    case True
    with Cons.prems(1) inv have "called0 = called @ [(h', v)]" by simp
    with Cons.prems(2) True show ?thesis by simp
  next
    case False
    with Cons.prems(1) inv have
      rec: "dispatch_loop env thr e eargs pre err1 (called @ [(h', v)]) (store_value e v s1)
              = Inr (err0, called0, s0)"
      by (simp add: Let_def)
    have sub: "set (drop (length (called @ [(h', v)])) called0) \<subseteq> set (drop (length called) called0)"
      by (simp add: set_drop_subset_set_drop)
    have nb: "\<forall>(h', v)\<in>set (drop (length (called @ [(h', v)])) called0). \<not> (truthy v \<and> filter_h h')"
      using Cons.prems(2) sub by blast
    have step: "dispatch_loop env thr e eargs ((h' # pre) @ rest) error called s
                  = dispatch_loop env thr e eargs (pre @ rest) err1 (called @ [(h', v)]) (store_value e v s1)"
      by (simp only: append_Cons dispatch_loop.simps inv sum.case prod.case Let_def if_not_P[OF False])
    show ?thesis unfolding step by (rule Cons.IH[OF rec nb])
  qed
qed

lemma invoke_queue:
  assumes "call env h (if event_h h then Some e else None) eargs s = (Raises x, s1)"
    and "invoke env thr e eargs h error s = Inr (v, err, s')"
  shows "\<exists>F. queue s' = queue s1 @ F \<and> (\<forall>(i, chs)\<in>set F. i < length (events s'))"
  using assms
  by (auto simp: invoke_def Let_def split: if_splits)

lemma fired_since_upd:
  assumes "\<And>y. kind (f y) = kind y"
  shows "fired_since s1 (upd_event e f s) = fired_since s1 s"
proof -
  have "\<And>i. kind (events (upd_event e f s) ! i) = kind (events s ! i)"
    using assms by (simp add: events_upd_event_nth)
  then show ?thesis by (simp add: fired_since_def)
qed

lemma fired_since_extends:
  assumes x: "extends s' sf"
    and q: "queue s' = queue s1 @ F"
    and v: "\<forall>(i, chs)\<in>set F. i < length (events s')"
  shows "take (length (fired_since s1 s')) (fired_since s1 sf) = fired_since s1 s'"
proof -
  from x obtain q' where q': "queue sf = queue s' @ q'" by (auto simp: extends_def)
  have k: "\<And>i. i < length (events s') \<Longrightarrow> kind (events sf ! i) = kind (events s' ! i)"
    using x by (simp add: extends_def)
  have m: "map (\<lambda>(i, chs). (kind (events sf ! i), chs)) F = map (\<lambda>(i, chs). (kind (events s' ! i), chs)) F"
    using v k by (intro map_cong) auto
  have a: "fired_since s1 s' = map (\<lambda>(i, chs). (kind (events s' ! i), chs)) F"
    by (simp add: fired_since_def q)
  have b: "fired_since s1 sf = map (\<lambda>(i, chs). (kind (events sf ! i), chs)) F
             @ map (\<lambda>(i, chs). (kind (events sf ! i), chs)) q'"
    by (simp add: fired_since_def q' q)
  show ?thesis by (simp add: a b m)
qed

text \<open>
  Claim C3. In the dispatch of the event \<open>e\<close>, let the handler \<open>h\<close> stand in the list of
  handlers behind the handlers \<open>pre\<close>, which have been called without ending the loop,
  and let the call of \<open>h\<close> raise \<open>x\<close>. If \<open>x\<close> is \<open>KeyboardInterrupt\<close> or \<open>SystemExit\<close>, the
  dispatch raises \<open>x\<close>. Otherwise the exception does not leave the dispatch: the tuple
  made for \<open>x\<close> is the value of the handler and is stored in \<open>event.value\<close>,
  \<open>event.value.errors\<close> is true, and the events fired are a \<open>Failure\<close> on the channels of
  the event exactly when \<open>event.failure\<close> is set, followed by an \<open>Error\<close> fired without
  channels; the dispatch goes on with the handlers behind \<open>h\<close>, unless \<open>h\<close> is a filter,
  with the tuple as the error, and ends with \<open>_eventDone\<close>. An exception that leaves
  the dispatch is one of the two fatal classes. When \<open>h\<close> is the last handler called,
  the state that the dispatch returns has the flag, the value and the fired events.
\<close>

theorem handler_failure_captured:
  assumes hs: "dispatcher_handlers env e chs (dispatcher_setup e s) = (pre @ h # post, s2)"
    and eargs: "eargs = args (events (dispatcher_setup e s) ! e)"
    and pre: "dispatch_loop env thr e eargs pre None [] s2 = Inr (err0, called0, s0)"
    and nobreak: "\<forall>(h', v)\<in>set called0. \<not> (truthy v \<and> filter_h h')"
    and c: "call env h (if event_h h then Some e else None) eargs
              (upd_event e (\<lambda>y. y\<lparr>handler_e := Some h\<rparr>) s0) = (Raises x, s1)"
    and e: "e < length (events s1)"
    and fired: "fired =
                   (if failure (events s1 ! e)
                    then [(Failure e (PError x),
                           fire_channels (mchannel (root s1))
                             (derived (events s1 ! e) ''failure'' (Failure e (PError x)))
                             (channels (events s1 ! e)))]
                    else []) @
                   [(Error (PError x) (Some h),
                     fire_channels (mchannel (root s1)) (Event ''error'' (Error (PError x) (Some h))) [])]"
  shows "if fatal x then dispatcher env thr e chs s = Inl x
         else (\<exists>s'. v_errors (events s' ! e) \<and> v_value (events s' ! e) = PError x \<and>
                 fired_since s1 s' = fired \<and>
                 dispatcher env thr e chs s =
                   (case (if filter_h h
                          then Inr (Some (PError x), called0 @ [(h, PError x)], s')
                          else dispatch_loop env thr e eargs post (Some (PError x))
                                 (called0 @ [(h, PError x)]) s') of
                      Inl y \<Rightarrow> Inl y
                    | Inr (err, called, s3) \<Rightarrow>
                        Inr (eventDone thr e err (s3\<lparr>currently_handling := None\<rparr>))) \<and>
                 (\<forall>y. dispatcher env thr e chs s = Inl y \<longrightarrow> fatal y) \<and>
                 (filter_h h \<or> post = [] \<longrightarrow>
                    (\<exists>sf. dispatcher env thr e chs s = Inr sf \<and>
                       v_errors (events sf ! e) \<and> v_value (events sf ! e) = PError x \<and>
                       take (length fired) (fired_since s1 sf) = fired)))"
proof -
  let ?sh = "upd_event e (\<lambda>y. y\<lparr>handler_e := Some h\<rparr>) s0"
  have nb: "\<forall>(h', v)\<in>set (drop (length ([] :: (handler \<times> pyval) list)) called0). \<not> (truthy v \<and> filter_h h')"
    using nobreak by simp
  have loop: "dispatch_loop env thr e eargs (pre @ h # post) None [] s2
                = dispatch_loop env thr e eargs (h # post) err0 called0 s0"
    by (rule dispatch_loop_append[OF pre nb])
  have disp: "dispatcher env thr e chs s =
                (case dispatch_loop env thr e eargs (h # post) err0 called0 s0 of
                   Inl y \<Rightarrow> Inl y
                 | Inr (err, called, s3) \<Rightarrow>
                     Inr (eventDone thr e err (s3\<lparr>currently_handling := None\<rparr>)))"
    unfolding dispatcher_def Let_def hs eargs[symmetric] prod.case loop ..
  show ?thesis
  proof (cases "fatal x")
    case True
    have "invoke env thr e eargs h err0 ?sh = Inl x"
      using invoke_captures[OF c e, of thr err0] True by simp
    then have "dispatch_loop env thr e eargs (h # post) err0 called0 s0 = Inl x" by simp
    then show ?thesis using True by (simp add: disp)
  next
    case False
    from invoke_captures[OF c e, of thr err0] False obtain s4 where
      inv: "invoke env thr e eargs h err0 ?sh = Inr (PError x, Some (PError x), s4)"
      and len: "length (events s1) \<le> length (events s4)"
      and ve: "v_errors (events s4 ! e)"
      and fs: "fired_since s1 s4 = fired"
      unfolding fired by auto
    define s' where "s' = store_value e (PError x) s4"
    have st: "s' = upd_event e (\<lambda>y. y\<lparr>v_value := PError x\<rparr>) s4"
      by (simp add: s'_def store_value_def)
    have e4: "e < length (events s4)" using e len by simp
    have v1: "v_errors (events s' ! e)" using ve e4 by (simp add: st events_upd_event_nth)
    have v2: "v_value (events s' ! e) = PError x" using e4 by (simp add: st events_upd_event_nth)
    have v3: "fired_since s1 s' = fired"
      unfolding st using fs by (simp add: fired_since_upd)
    have step: "dispatch_loop env thr e eargs (h # post) err0 called0 s0 =
                  (if filter_h h
                   then Inr (Some (PError x), called0 @ [(h, PError x)], s')
                   else dispatch_loop env thr e eargs post (Some (PError x))
                          (called0 @ [(h, PError x)]) s')"
      by (simp add: inv s'_def Let_def)
    have d1: "dispatcher env thr e chs s =
                   (case (if filter_h h
                          then Inr (Some (PError x), called0 @ [(h, PError x)], s')
                          else dispatch_loop env thr e eargs post (Some (PError x))
                                 (called0 @ [(h, PError x)]) s') of
                      Inl y \<Rightarrow> Inl y
                    | Inr (err, called, s3) \<Rightarrow>
                        Inr (eventDone thr e err (s3\<lparr>currently_handling := None\<rparr>)))"
      unfolding disp step ..
    have d2: "\<forall>y. dispatcher env thr e chs s = Inl y \<longrightarrow> fatal y"
      using dispatcher_fatal by blast
    have d3: "filter_h h \<or> post = [] \<longrightarrow>
                    (\<exists>sf. dispatcher env thr e chs s = Inr sf \<and>
                       v_errors (events sf ! e) \<and> v_value (events sf ! e) = PError x \<and>
                       take (length fired) (fired_since s1 sf) = fired)"
    proof
      assume last: "filter_h h \<or> post = []"
      define sf where "sf = eventDone thr e (Some (PError x)) (s'\<lparr>currently_handling := None\<rparr>)"
      have r: "dispatcher env thr e chs s = Inr sf"
        using last unfolding d1 sf_def by auto
      have x: "extends s' sf"
        unfolding sf_def using extends_field[of s' None] eventDone_extends
        by (blast intro: extends_trans)
      have e': "e < length (events s')" using e4 by (simp add: st)
      from x e' have f1: "v_errors (events sf ! e)" "v_value (events sf ! e) = PError x"
        using v1 v2 by (simp_all add: extends_def)
      from invoke_queue[OF c inv] obtain F where
        F: "queue s4 = queue s1 @ F" "\<forall>(i, chs)\<in>set F. i < length (events s4)" by blast
      have F': "queue s' = queue s1 @ F" "\<forall>(i, chs)\<in>set F. i < length (events s')"
        using F by (simp_all add: st)
      from fired_since_extends[OF x F'] have "take (length fired) (fired_since s1 sf) = fired"
        by (simp add: v3)
      with r f1 show "\<exists>sf. dispatcher env thr e chs s = Inr sf \<and>
                       v_errors (events sf ! e) \<and> v_value (events sf ! e) = PError x \<and>
                       take (length fired) (fired_since s1 sf) = fired" by blast
    qed
    show ?thesis using False v1 v2 v3 d1 d2 d3 by auto
  qed
qed

text \<open>
  Claim C10. When the call of a filter handler raises an exception that is not fatal,
  the tuple made for it is the value of the handler and is stored in
  \<open>event.value.value\<close>; the tuple is truthy, and the loop ends with this handler: none
  of the handlers \<open>hs\<close> behind it is called.
\<close>

theorem filter_failure_short_circuit:
  assumes "call env h (if event_h h then Some e else None) eargs
             (upd_event e (\<lambda>y. y\<lparr>handler_e := Some h\<rparr>) s) = (Raises x, s1)"
    and "\<not> fatal x" and "filter_h h" and "e < length (events s1)"
  shows "\<exists>s'. dispatch_loop env thr e eargs (h # hs) error called s
               = Inr (Some (PError x), called @ [(h, PError x)], s') \<and>
              v_value (events s' ! e) = PError x \<and> truthy (PError x)"
proof -
  from invoke_captures[OF assms(1,4), of thr error] assms(2) obtain s4 where
    inv: "invoke env thr e eargs h error (upd_event e (\<lambda>y. y\<lparr>handler_e := Some h\<rparr>) s)
            = Inr (PError x, Some (PError x), s4)"
    and len: "length (events s1) \<le> length (events s4)"
    by auto
  have e4: "e < length (events s4)" using assms(4) len by simp
  have st: "store_value e (PError x) s4 = upd_event e (\<lambda>y. y\<lparr>v_value := PError x\<rparr>) s4"
    by (simp add: store_value_def)
  have "dispatch_loop env thr e eargs (h # hs) error called s
          = Inr (Some (PError x), called @ [(h, PError x)], store_value e (PError x) s4)"
    using inv assms(3) by simp
  moreover have "v_value (events (store_value e (PError x) s4) ! e) = PError x"
    using e4 by (simp add: st events_upd_event_nth)
  ultimately show ?thesis by simp
qed

definition x_op :: event where "x_op = (Event ''op'' Plain)\<lparr>failure := True\<rparr>"
definition x_ping :: event where "x_ping = Event ''ping'' Plain"
definition x_job :: event where "x_job = Event ''job'' Plain"

lemmas evaldefs = invoke_def store_value_def fire_new_def new_event_def fireEvent_def fire_def
  fire_channels_def upd_event_def derived_def Event_def registerTask_def Let_def

lemma run_ping:
  "\<exists>S. dispatch_loop env1 0 0 [] [h_filter, h_low] None [] (state1 x_ping)
     = Inr (None, [(h_filter, PBool True)], S)"
  by (simp add: evaldefs state1_def x_ping_def env1_def call1_def h_filter_def)

theorem filter_short_circuit_witness:
  "\<exists>error' called s'. dispatch_loop env1 0 0 [] [h_filter, h_low] None [] (state1 x_ping)
       = Inr (error', called, s') \<and> map fst called = [h_filter]"
proof -
  from run_ping obtain S where
    run: "dispatch_loop env1 0 0 [] [h_filter, h_low] None [] (state1 x_ping)
            = Inr (None, [(h_filter, PBool True)], S)" by blast
  have "Suc 0 = length [(h_filter, PBool True)] \<and> map fst [(h_filter, PBool True)] = take (Suc 0) [h_filter, h_low]"
    by (rule filter_short_circuit[OF run]) (simp_all add: h_filter_def)
  with run show ?thesis by simp
qed

lemma run_op:
  "\<exists>S err. dispatch_loop env1 0 0 [] [h_fail, h_ok] None []
       ((state1 x_op)\<lparr>cache := [(''op'', [CStr ''*'']) \<mapsto> [h_fail, h_ok]]\<rparr>)
     = Inr (err, [(h_fail, PError (Exception ''boom'')), (h_ok, PStr ''ok'')], S)"
  by (simp add: evaldefs state1_def x_op_def env1_def call1_def h_fail_def h_ok_def root1_def)

theorem dispatch_order_witness:
  "\<exists>error' called s'. dispatch_loop env1 0 0 [] [h_fail, h_ok] None []
       ((state1 x_op)\<lparr>cache := [(''op'', [CStr ''*'']) \<mapsto> [h_fail, h_ok]]\<rparr>) = Inr (error', called, s') \<and>
     sortkey h_ok < sortkey h_fail \<and>
     invoked_before (map fst called) h_fail h_ok \<and> \<not> invoked_before (map fst called) h_ok h_fail"
proof -
  from run_op obtain S err where
    run: "dispatch_loop env1 0 0 [] [h_fail, h_ok] None []
       ((state1 x_op)\<lparr>cache := [(''op'', [CStr ''*'']) \<mapsto> [h_fail, h_ok]]\<rparr>)
     = Inr (err, [(h_fail, PError (Exception ''boom'')), (h_ok, PStr ''ok'')], S)" by blast
  have cs: "cache_sorted (state1 x_op)" by (simp add: cache_sorted_def state1_def)
  have hs: "dispatcher_handlers env1 0 [CStr ''*''] (state1 x_op)
     = ([h_fail, h_ok], (state1 x_op)\<lparr>cache := [(''op'', [CStr ''*'']) \<mapsto> [h_fail, h_ok]]\<rparr>)"
    using handlers_op by (simp add: x_op_def)
  have k: "sortkey h_ok < sortkey h_fail" by (simp add: sortkey_def h_ok_def h_fail_def)
  from dispatch_order[OF cs hs run, of h_fail h_ok] k
  have "invoked_before (map fst [(h_fail, PError (Exception ''boom'')), (h_ok, PStr ''ok'')]) h_fail h_ok \<and>
     \<not> invoked_before (map fst [(h_fail, PError (Exception ''boom'')), (h_ok, PStr ''ok'')]) h_ok h_fail"
    by simp
  with run k show ?thesis by simp
qed

text \<open>
  Two handlers of one event with equal keys: one of them is called before the other.
\<close>

definition h_first :: handler where
  "h_first = \<lparr>hid = 30, hname = ''first'', names = [''tie''], channel = None, priority = 2,
              filter_h = False, event_h = False, self_channel = Some (Some ''*'')\<rparr>"

definition h_second :: handler where
  "h_second = \<lparr>hid = 31, hname = ''second'', names = [''tie''], channel = None, priority = 2,
               filter_h = False, event_h = False, self_channel = Some (Some ''*'')\<rparr>"

definition env4 :: "string list env" where
  "env4 = \<lparr>call = (\<lambda>h eo eargs s. (Returns PNone, s\<lparr>app := app s @ [hname h]\<rparr>)),
           call_tick = (\<lambda>f s. (Returns PNone, s)),
           next_g = (\<lambda>g s. (StopIteration, s)),
           send_g = (\<lambda>g v s. (StopIteration, s)),
           iter_h = (\<lambda>S. filter (\<lambda>h. h \<in> S) [h_first, h_second]),
           iter_t = (\<lambda>T. []),
           iter_k = (\<lambda>K. []),
           register_fallback = (\<lambda>s. s)\<rparr>"

definition root4 :: manager where
  "root4 = Manager 0 None
     \<lparr>globals_r = {}, handlers_r = [''tie'' \<mapsto> {h_first, h_second}],
      attrs = init_attrs(''first'' \<mapsto> Bound h_first, ''second'' \<mapsto> Bound h_second)\<rparr> []"

definition x_tie :: event where
  "x_tie = (Event ''tie'' Plain)\<lparr>channels := [CStr ''*'']\<rparr>"

definition tie0 :: "string list mstate" where
  "tie0 = \<lparr>root = root4, events = [x_tie], queue = [], cache = Map.empty, tasks = {}, ticks = {},
           currently_handling = None, executing_thread = Some 0, running = True,
           fallback_generator = True, app = []\<rparr>"

definition tie1 :: "string list mstate" where
  "tie1 = tie0\<lparr>cache := [(''tie'', [CStr ''*'']) \<mapsto> [h_first, h_second]],
               currently_handling := Some 0\<rparr>"

definition tie2 :: "string list mstate" where
  "tie2 = tie1\<lparr>events := [x_tie\<lparr>handler_e := Some h_second\<rparr>], app := [''first'', ''second'']\<rparr>"

lemma tie_handlers:
  "dispatcher_handlers env4 0 [CStr ''*''] (dispatcher_setup 0 tie0) = ([h_first, h_second], tie1)"
  by (simp add: dispatcher_handlers_def dispatcher_setup_def tie0_def tie1_def x_tie_def Event_def
      env4_def root4_def getHandlers_def own_handlers_def bucket_def sorted_reverse_def sortkey_def
      h_first_def h_second_def Let_def)

lemma tie_loop:
  "dispatch_loop env4 0 0 [] [h_first, h_second] None [] tie1
     = Inr (None, [(h_first, PNone), (h_second, PNone)], tie2)"
  by (simp add: invoke_def store_value_def upd_event_def tie0_def tie1_def tie2_def x_tie_def
      Event_def env4_def h_first_def h_second_def)

theorem dispatch_order_counterexample:
  "dispatcher_handlers env4 0 [CStr ''*''] (dispatcher_setup 0 tie0) = ([h_first, h_second], tie1) \<and>
   dispatch_loop env4 0 0 [] [h_first, h_second] None [] tie1
     = Inr (None, [(h_first, PNone), (h_second, PNone)], tie2) \<and>
   dispatcher env4 0 0 [CStr ''*''] tie0 = Inr (tie2\<lparr>currently_handling := None\<rparr>) \<and>
   app tie2 = [''first'', ''second''] \<and>
   invoked_before (map fst [(h_first, PNone), (h_second, PNone)]) h_first h_second \<and>
   \<not> sortkey h_second < sortkey h_first \<and>
   \<not> (invoked_before (map fst [(h_first, PNone), (h_second, PNone)]) h_first h_second
        \<longleftrightarrow> sortkey h_second < sortkey h_first)"
proof -
  have a: "args (events (dispatcher_setup 0 tie0) ! 0) = []"
    by (simp add: dispatcher_setup_def tie0_def x_tie_def Event_def)
  have d: "eventDone 0 0 None (tie2\<lparr>currently_handling := None\<rparr>) = tie2\<lparr>currently_handling := None\<rparr>"
    by (simp add: eventDone_def eventDone_loop.simps tie2_def tie1_def tie0_def x_tie_def Event_def)
  have disp: "dispatcher env4 0 0 [CStr ''*''] tie0 = Inr (tie2\<lparr>currently_handling := None\<rparr>)"
    unfolding dispatcher_def Let_def tie_handlers a
    by (simp add: tie_loop d del: dispatch_loop.simps)
  have k: "sortkey h_first = sortkey h_second"
    by (simp add: sortkey_def h_first_def h_second_def)
  have i: "invoked_before (map fst [(h_first, PNone), (h_second, PNone)]) h_first h_second"
    by simp
  have p: "app tie2 = [''first'', ''second'']" by (simp add: tie2_def)
  show ?thesis using tie_handlers tie_loop disp k i p by simp
qed

lemma handlers_job:
  "dispatcher_handlers env1 0 [CStr ''*''] (state1 x_job)
     = ([h_guard, h_job], (state1 x_job)\<lparr>cache := [(''job'', [CStr ''*'']) \<mapsto> [h_guard, h_job]]\<rparr>)"
  by (simp add: dispatcher_handlers_def state1_def x_job_def Event_def env1_def root1_def getHandlers_def
      own_handlers_def bucket_def sorted_reverse_def sortkey_def hdefs Let_def)

lemma setup_state1: "dispatcher_setup 0 (state1 (Event n Plain)) = state1 (Event n Plain)"
  "dispatcher_setup 0 (state1 ((Event n Plain)\<lparr>failure := True\<rparr>)) = state1 ((Event n Plain)\<lparr>failure := True\<rparr>)"
  by (simp_all add: dispatcher_setup_def state1_def Event_def)

theorem handler_failure_captured_witness:
  "(\<exists>s'. dispatcher env1 0 0 [CStr ''*''] (state1 x_op) =
            (case dispatch_loop env1 0 0 [] [h_ok] (Some (PError (Exception ''boom'')))
                    [(h_fail, PError (Exception ''boom''))] s' of
               Inl y \<Rightarrow> Inl y
             | Inr (err, called, s3) \<Rightarrow> Inr (eventDone 0 0 err (s3\<lparr>currently_handling := None\<rparr>))) \<and>
          v_errors (events s' ! 0) \<and> v_value (events s' ! 0) = PError (Exception ''boom'') \<and>
          fired_since (state1 x_op) s' =
            [(Failure 0 (PError (Exception ''boom'')), [CStr ''*'']),
             (Error (PError (Exception ''boom'')) (Some h_fail), [CStr ''*''])]) \<and>
   (\<exists>sf. dispatcher env1 0 0 [CStr ''*''] (state1 x_job) = Inr sf \<and>
          v_errors (events sf ! 0) \<and> v_value (events sf ! 0) = PError (Exception ''denied'') \<and>
          take 1 (fired_since (state1 x_job) sf) =
            [(Error (PError (Exception ''denied'')) (Some h_guard), [CStr ''*''])])"
proof -
  let ?b = "Exception ''boom''" and ?d = "Exception ''denied''"
  let ?o2 = "(state1 x_op)\<lparr>cache := [(''op'', [CStr ''*'']) \<mapsto> [h_fail, h_ok]]\<rparr>"
  let ?o1 = "upd_event 0 (\<lambda>y. y\<lparr>handler_e := Some h_fail\<rparr>) ?o2"
  let ?j2 = "(state1 x_job)\<lparr>cache := [(''job'', [CStr ''*'']) \<mapsto> [h_guard, h_job]]\<rparr>"
  let ?j1 = "upd_event 0 (\<lambda>y. y\<lparr>handler_e := Some h_guard\<rparr>) ?j2"
  have oh: "dispatcher_handlers env1 0 [CStr ''*''] (dispatcher_setup 0 (state1 x_op)) = ([] @ h_fail # [h_ok], ?o2)"
    using handlers_op by (simp add: x_op_def setup_state1)
  have oa: "[] = args (events (dispatcher_setup 0 (state1 x_op)) ! 0)"
    by (simp add: x_op_def setup_state1) (simp add: state1_def Event_def)
  have op: "dispatch_loop env1 0 0 [] [] None [] ?o2 = Inr (None, [], ?o2)" by simp
  have nb: "\<forall>(h', v)\<in>set ([] :: (handler \<times> pyval) list). \<not> (truthy v \<and> filter_h h')" by simp
  have oc: "call env1 h_fail (if event_h h_fail then Some 0 else None) [] ?o1 = (Raises ?b, ?o1)"
    by (simp add: env1_def call1_def h_fail_def)
  have ol: "0 < length (events ?o1)" by (simp add: state1_def)
  have of_: "[(Failure 0 (PError ?b), [CStr ''*'']), (Error (PError ?b) (Some h_fail), [CStr ''*''])] =
                   (if failure (events ?o1 ! 0)
                    then [(Failure 0 (PError ?b),
                           fire_channels (mchannel (root ?o1))
                             (derived (events ?o1 ! 0) ''failure'' (Failure 0 (PError ?b)))
                             (channels (events ?o1 ! 0)))]
                    else []) @
                   [(Error (PError ?b) (Some h_fail),
                     fire_channels (mchannel (root ?o1)) (Event ''error'' (Error (PError ?b) (Some h_fail))) [])]"
    by (simp add: state1_def x_op_def Event_def upd_event_def fire_channels_def root1_def derived_def)
  have fo: "\<And>s'. fired_since ?o1 s' = fired_since (state1 x_op) s'"
    by (simp add: fired_since_def state1_def)
  have nfb: "\<not> fatal ?b" "\<not> filter_h h_fail" by (simp_all add: h_fail_def)
  from handler_failure_captured[OF oh oa op nb oc ol of_] nfb
  have A: "\<exists>s'. dispatcher env1 0 0 [CStr ''*''] (state1 x_op) =
            (case dispatch_loop env1 0 0 [] [h_ok] (Some (PError ?b)) [(h_fail, PError ?b)] s' of
               Inl y \<Rightarrow> Inl y
             | Inr (err, called, s3) \<Rightarrow> Inr (eventDone 0 0 err (s3\<lparr>currently_handling := None\<rparr>))) \<and>
          v_errors (events s' ! 0) \<and> v_value (events s' ! 0) = PError ?b \<and>
          fired_since (state1 x_op) s' =
            [(Failure 0 (PError ?b), [CStr ''*'']), (Error (PError ?b) (Some h_fail), [CStr ''*''])]"
    unfolding fo by (simp only: if_False append_Nil simp_thms) blast
  have jh: "dispatcher_handlers env1 0 [CStr ''*''] (dispatcher_setup 0 (state1 x_job)) = ([] @ h_guard # [h_job], ?j2)"
    using handlers_job by (simp add: x_job_def setup_state1)
  have ja: "[] = args (events (dispatcher_setup 0 (state1 x_job)) ! 0)"
    by (simp add: x_job_def setup_state1) (simp add: state1_def Event_def)
  have jp: "dispatch_loop env1 0 0 [] [] None [] ?j2 = Inr (None, [], ?j2)" by simp
  have jc: "call env1 h_guard (if event_h h_guard then Some 0 else None) [] ?j1 = (Raises ?d, ?j1)"
    by (simp add: env1_def call1_def h_guard_def)
  have jl: "0 < length (events ?j1)" by (simp add: state1_def)
  have jf: "[(Error (PError ?d) (Some h_guard), [CStr ''*''])] =
                   (if failure (events ?j1 ! 0)
                    then [(Failure 0 (PError ?d),
                           fire_channels (mchannel (root ?j1))
                             (derived (events ?j1 ! 0) ''failure'' (Failure 0 (PError ?d)))
                             (channels (events ?j1 ! 0)))]
                    else []) @
                   [(Error (PError ?d) (Some h_guard),
                     fire_channels (mchannel (root ?j1)) (Event ''error'' (Error (PError ?d) (Some h_guard))) [])]"
    by (simp add: state1_def x_job_def Event_def upd_event_def fire_channels_def root1_def derived_def)
  have fj: "\<And>s'. fired_since ?j1 s' = fired_since (state1 x_job) s'"
    by (simp add: fired_since_def state1_def)
  have nfd: "\<not> fatal ?d" "filter_h h_guard" by (simp_all add: h_guard_def)
  from handler_failure_captured[OF jh ja jp nb jc jl jf] nfd
  have B: "\<exists>sf. dispatcher env1 0 0 [CStr ''*''] (state1 x_job) = Inr sf \<and>
          v_errors (events sf ! 0) \<and> v_value (events sf ! 0) = PError ?d \<and>
          take 1 (fired_since (state1 x_job) sf) = [(Error (PError ?d) (Some h_guard), [CStr ''*''])]"
    unfolding fj by (simp only: if_False if_True simp_thms list.size) auto
  show ?thesis using A B by blast
qed

theorem filter_failure_short_circuit_witness:
  "\<exists>s'. dispatch_loop env1 0 0 [] [h_guard, h_job] None [] (state1 x_job)
          = Inr (Some (PError (Exception ''denied'')), [(h_guard, PError (Exception ''denied''))], s') \<and>
        v_value (events s' ! 0) = PError (Exception ''denied'')"
proof -
  have c: "call env1 h_guard (if event_h h_guard then Some 0 else None) []
             (upd_event 0 (\<lambda>y. y\<lparr>handler_e := Some h_guard\<rparr>) (state1 x_job))
        = (Raises (Exception ''denied''), upd_event 0 (\<lambda>y. y\<lparr>handler_e := Some h_guard\<rparr>) (state1 x_job))"
    by (simp add: env1_def call1_def h_guard_def)
  have f: "\<not> fatal (Exception ''denied'')" by simp
  have g: "filter_h h_guard" by (simp add: h_guard_def)
  have l: "0 < length (events (upd_event 0 (\<lambda>y. y\<lparr>handler_e := Some h_guard\<rparr>) (state1 x_job)))"
    by (simp add: state1_def)
  from filter_failure_short_circuit[OF c f g l, of 0 "[h_job]" None "[]"]
  show ?thesis by simp
qed

subsection \<open>Suspended handlers and \<open>waitingHandlers\<close>\<close>

definition x_work :: event where "x_work = (Event ''work'' Plain)\<lparr>complete := True\<rparr>"

lemma eventDone_waiting:
  "waitingHandlers (events s ! e) \<noteq> 0 \<Longrightarrow> eventDone thr e error s = s"
  by (simp add: eventDone_def)

definition work1 :: "unit mstate" where
  "work1 = (state1 (x_work\<lparr>cause := Some 0, effects := 1\<rparr>))"

definition work2 :: "unit mstate" where
  "work2 = work1\<lparr>cache := [(''work'', [CStr ''*'']) \<mapsto> [h_gen]]\<rparr>"

definition work3 :: "unit mstate" where
  "work3 = (state1 (x_work\<lparr>cause := Some 0, effects := 1, handler_e := Some h_gen,
                waitingHandlers := 1, v_promise := True\<rparr>))
             \<lparr>cache := [(''work'', [CStr ''*'']) \<mapsto> [h_gen]], tasks := {Task2 0 0}\<rparr>"

lemma work_setup: "dispatcher_setup 0 (state1 x_work) = work1"
  by (simp add: dispatcher_setup_def state1_def x_work_def Event_def upd_event_def work1_def)

lemma work_handlers: "dispatcher_handlers env1 0 [CStr ''*''] work1 = ([h_gen], work2)"
  by (simp add: dispatcher_handlers_def work1_def work2_def state1_def x_work_def Event_def env1_def root1_def
      getHandlers_def own_handlers_def bucket_def sorted_reverse_def hdefs Let_def)

lemma work_loop: "dispatch_loop env1 0 0 [] [h_gen] None [] work2 = Inr (None, [(h_gen, PGen 0)], work3)"
  by (simp add: work2_def work1_def work3_def state1_def x_work_def Event_def env1_def call1_def
      invoke_def store_value_def upd_event_def registerTask_def h_gen_def)


lemma work_dispatch: "dispatcher env1 0 0 [CStr ''*''] (state1 x_work) = Inr (work3\<lparr>currently_handling := None\<rparr>)"
proof -
  have a: "args (events work1 ! 0) = []"
    by (simp add: work1_def state1_def x_work_def Event_def)
  have w: "waitingHandlers (events (work3\<lparr>currently_handling := None\<rparr>) ! 0) \<noteq> 0"
    by (simp add: work3_def state1_def)
  show ?thesis
    by (simp add: dispatcher_def work_setup work_handlers a work_loop eventDone_waiting[OF w]
        del: dispatch_loop.simps)
qed

lemma work_task:
  "\<exists>s2. processTask 1 env1 0 0 0 None (work3\<lparr>currently_handling := None\<rparr>) = Some s2 \<and>
     tasks s2 = {} \<and> waitingHandlers (events s2 ! 0) = 1 \<and> v_errors (events s2 ! 0) \<and>
     v_informed (events s2 ! 0)"
  by (simp add: env1_def task_failed_def unregisterTask_def work3_def state1_def x_work_def
      Event_def upd_event_def fire_new_def new_event_def fireEvent_def fire_def fire_channels_def Let_def)

text \<open>
  Claim C2: what the code does. \<open>_eventDone\<close> returns at once, without any of its
  actions, exactly when \<open>waitingHandlers\<close> is not zero (lemma \<open>eventDone_waiting\<close> and
  the definition). But the counter does not stay equal to the number of live task
  iterators: a handler of the event \<open>0\<close> returns a generator, which the dispatcher
  registers as the task \<open>(0, g)\<close> with \<open>waitingHandlers = 1\<close>; the first \<open>next()\<close> of
  the generator raises, and the bare \<open>except\<close> of \<open>processTask\<close> unregisters the task
  without decrementing the counter. No task is left, \<open>waitingHandlers\<close> is still 1, and
  \<open>_eventDone\<close> does nothing for this event from then on.
\<close>

theorem task_failure_keeps_waitingHandlers:
  "\<exists>s1 s2. dispatcher env1 0 0 [CStr ''*''] (state1 x_work) = Inr s1 \<and>
     tasks s1 = {Task2 0 0} \<and> waitingHandlers (events s1 ! 0) = 1 \<and>
     processTask 1 env1 0 0 0 None s1 = Some s2 \<and>
     tasks s2 = {} \<and> waitingHandlers (events s2 ! 0) = 1 \<and>
     eventDone 0 0 None s2 = s2"
proof -
  from work_task obtain s2 where s2:
    "processTask 1 env1 0 0 0 None (work3\<lparr>currently_handling := None\<rparr>) = Some s2"
    "tasks s2 = {}" "waitingHandlers (events s2 ! 0) = 1" by blast
  have "eventDone 0 0 None s2 = s2" using s2(3) by (simp add: eventDone_waiting)
  moreover have "tasks (work3\<lparr>currently_handling := None\<rparr>) = {Task2 0 0}"
    "waitingHandlers (events (work3\<lparr>currently_handling := None\<rparr>) ! 0) = 1"
    by (simp_all add: work3_def state1_def)
  ultimately show ?thesis using work_dispatch s2 by blast
qed

subsection \<open>The bookkeeping of \<open>cause\<close> and \<open>effects\<close>\<close>

text \<open>
  \<open>count_complete s e\<close> is the number of \<open>Complete\<close> events made for the event \<open>e\<close>: event
  objects are only made by \<open>fire_new\<close>, so it is the number of times \<open>_eventDone\<close> has
  fired \<open>Complete(e, value)\<close>. \<open>children s e\<close> are the events whose \<open>cause\<close> is \<open>e\<close>.

  The invariant of the bookkeeping, for the events \<open>P\<close> that are waiting to be dispatched
  and the event \<open>cur\<close> that is being handled: a \<open>cause\<close> points to an older event that is
  tracked itself; the \<open>effects\<close> of a tracked event is one for the event itself, while it
  waits or is handled, plus the number of its children; a tracked event that neither
  waits nor is handled has a child; an event that waits has no child; no handler is
  suspended; and \<open>Complete\<close> has been fired once for the events with \<open>complete\<close> that are
  dispatched and not tracked any more, and for no other.
\<close>

fun is_complete_of :: "eid \<Rightarrow> event \<Rightarrow> bool" where
  "is_complete_of e x = (case kind x of Complete e' v \<Rightarrow> e' = e | _ \<Rightarrow> False)"

definition count_complete :: "'u mstate \<Rightarrow> eid \<Rightarrow> nat" where
  "count_complete s e = length (filter (is_complete_of e) (events s))"

definition children :: "'u mstate \<Rightarrow> eid \<Rightarrow> eid set" where
  "children s e = {c. c < length (events s) \<and> c \<noteq> e \<and> cause (events s ! c) = Some e}"

definition own :: "eid list \<Rightarrow> eid option \<Rightarrow> eid \<Rightarrow> int" where
  "own P cur e = (if e \<in> set P \<or> cur = Some e then 1 else 0)"

definition pend_ok :: "'u mstate \<Rightarrow> eid list \<Rightarrow> eid option \<Rightarrow> bool" where
  "pend_ok s P cur = (distinct P \<and> (\<forall>e\<in>set P. e < length (events s)) \<and>
     (\<forall>e. cur = Some e \<longrightarrow> e < length (events s) \<and> e \<notin> set P))"

definition cause_ok :: "'u mstate \<Rightarrow> bool" where
  "cause_ok s = (\<forall>c<length (events s). \<forall>p. cause (events s ! c) = Some p \<longrightarrow>
      p \<le> c \<and> cause (events s ! p) \<noteq> None)"

definition effects_ok :: "'u mstate \<Rightarrow> eid list \<Rightarrow> eid option \<Rightarrow> bool" where
  "effects_ok s P cur = (\<forall>e<length (events s). cause (events s ! e) \<noteq> None \<longrightarrow>
      effects (events s ! e) = own P cur e + int (card (children s e)))"

definition done_ok :: "'u mstate \<Rightarrow> eid list \<Rightarrow> eid option \<Rightarrow> bool" where
  "done_ok s P cur = (\<forall>e<length (events s). cause (events s ! e) \<noteq> None \<and> e \<notin> set P \<and> cur \<noteq> Some e
      \<longrightarrow> children s e \<noteq> {})"

definition pending_ok :: "'u mstate \<Rightarrow> eid list \<Rightarrow> bool" where
  "pending_ok s P = (\<forall>e\<in>set P. children s e = {} \<and> cause (events s ! e) \<noteq> Some e)"

definition count_ok :: "'u mstate \<Rightarrow> eid list \<Rightarrow> eid option \<Rightarrow> bool" where
  "count_ok s P cur = (\<forall>e. count_complete s e =
      (if e < length (events s) \<and> complete (events s ! e) \<and> cause (events s ! e) = None
          \<and> e \<notin> set P \<and> cur \<noteq> Some e then 1 else 0))"

definition sync_ok :: "'u mstate \<Rightarrow> bool" where
  "sync_ok s = (\<forall>e<length (events s). waitingHandlers (events s ! e) = 0)"

definition core_inv :: "'u mstate \<Rightarrow> eid list \<Rightarrow> eid option \<Rightarrow> bool" where
  "core_inv s P cur = (pend_ok s P cur \<and> cause_ok s \<and> effects_ok s P cur \<and> done_ok s P cur
      \<and> pending_ok s P \<and> sync_ok s)"

definition tracking_inv :: "'u mstate \<Rightarrow> eid list \<Rightarrow> eid option \<Rightarrow> bool" where
  "tracking_inv s P cur = (core_inv s P cur \<and> count_ok s P cur)"

definition view :: "'u mstate \<Rightarrow> (eid option \<times> int \<times> bool \<times> ekind \<times> int) list" where
  "view s = map (\<lambda>x. (cause x, effects x, complete x, kind x, waitingHandlers x)) (events s)"

lemma view_length:
  assumes "view s' = view s"
  shows "length (events s') = length (events s)"
proof -
  have "length (view s') = length (view s)" using assms by simp
  then show ?thesis by (simp add: view_def)
qed

lemma view_nth:
  assumes "view s' = view s" and "i < length (events s)"
  shows "cause (events s' ! i) = cause (events s ! i)"
    and "effects (events s' ! i) = effects (events s ! i)"
    and "complete (events s' ! i) = complete (events s ! i)"
    and "kind (events s' ! i) = kind (events s ! i)"
    and "waitingHandlers (events s' ! i) = waitingHandlers (events s ! i)"
proof -
  have l: "i < length (events s')" using assms(2) view_length[OF assms(1)] by simp
  have "view s' ! i = view s ! i" using assms(1) by simp
  then have "(cause (events s' ! i), effects (events s' ! i), complete (events s' ! i),
              kind (events s' ! i), waitingHandlers (events s' ! i))
           = (cause (events s ! i), effects (events s ! i), complete (events s ! i),
              kind (events s ! i), waitingHandlers (events s ! i))"
    using l assms(2) by (simp add: view_def)
  then show "cause (events s' ! i) = cause (events s ! i)"
    and "effects (events s' ! i) = effects (events s ! i)"
    and "complete (events s' ! i) = complete (events s ! i)"
    and "kind (events s' ! i) = kind (events s ! i)"
    and "waitingHandlers (events s' ! i) = waitingHandlers (events s ! i)"
    by simp_all
qed

lemma view_children:
  assumes "view s' = view s"
  shows "children s' e = children s e"
proof -
  have "\<And>c. c < length (events s) \<Longrightarrow> cause (events s' ! c) = cause (events s ! c)"
    using view_nth(1)[OF assms] .
  then have "\<And>c. (c < length (events s) \<and> c \<noteq> e \<and> cause (events s' ! c) = Some e)
       = (c < length (events s) \<and> c \<noteq> e \<and> cause (events s ! c) = Some e)"
    by (case_tac "c < length (events s)") simp_all
  then show ?thesis unfolding children_def view_length[OF assms] by simp
qed

lemma view_count: "view s' = view s \<Longrightarrow> count_complete s' e = count_complete s e"
proof -
  assume v: "view s' = view s"
  have c: "\<And>es. length (filter (is_complete_of e) es)
      = length (filter (\<lambda>k. case k of Complete e' v \<Rightarrow> e' = e | _ \<Rightarrow> False) (map kind es))"
    by (induct_tac es) auto
  have "map kind (events s') = map kind (events s)"
  proof -
    have "map (\<lambda>t. fst (snd (snd (snd t)))) (view s') = map (\<lambda>t. fst (snd (snd (snd t)))) (view s)"
      using v by simp
    then show ?thesis by (simp add: view_def comp_def)
  qed
  then show ?thesis by (simp add: count_complete_def c)
qed

lemma view_inv_imp:
  assumes v: "view s' = view s" and inv: "tracking_inv s P cur"
  shows "tracking_inv s' P cur"
proof -
  note l = view_length[OF v]
  note n = view_nth[OF v]
  note ch = view_children[OF v]
  note ct = view_count[OF v]
  from inv have i1: "pend_ok s P cur" and i2: "cause_ok s" and i3: "effects_ok s P cur"
    and i4: "done_ok s P cur" and i5: "pending_ok s P" and i6: "count_ok s P cur" and i7: "sync_ok s"
    by (simp_all add: tracking_inv_def core_inv_def)
  have 1: "pend_ok s' P cur" using i1 by (simp add: pend_ok_def l)
  have 2: "cause_ok s'"
    unfolding cause_ok_def l
  proof (intro allI impI)
    fix c p assume c: "c < length (events s)" and cp: "cause (events s' ! c) = Some p"
    then have "cause (events s ! c) = Some p" using n(1)[of c] by simp
    with i2 c have p: "p \<le> c" "cause (events s ! p) \<noteq> None" by (auto simp: cause_ok_def)
    then have "p < length (events s)" using c by simp
    then show "p \<le> c \<and> cause (events s' ! p) \<noteq> None" using p n(1)[of p] by simp
  qed
  have 3: "effects_ok s' P cur"
    unfolding effects_ok_def l ch
  proof (intro allI impI)
    fix e assume e: "e < length (events s)" and "cause (events s' ! e) \<noteq> None"
    then have "cause (events s ! e) \<noteq> None" using n(1)[of e] by simp
    with i3 e have "effects (events s ! e) = own P cur e + int (card (children s e))"
      by (simp add: effects_ok_def)
    then show "effects (events s' ! e) = own P cur e + int (card (children s e))"
      using n(2)[of e] e by simp
  qed
  have 4: "done_ok s' P cur"
    unfolding done_ok_def l ch
  proof (intro allI impI)
    fix e assume e: "e < length (events s)"
      and h: "cause (events s' ! e) \<noteq> None \<and> e \<notin> set P \<and> cur \<noteq> Some e"
    then have "cause (events s ! e) \<noteq> None" using n(1)[of e] by simp
    with i4 e h show "children s e \<noteq> {}" by (simp add: done_ok_def)
  qed
  have 5: "pending_ok s' P"
    unfolding pending_ok_def ch
  proof (intro ballI)
    fix e assume e: "e \<in> set P"
    then have "e < length (events s)" using i1 by (simp add: pend_ok_def)
    then have "cause (events s' ! e) = cause (events s ! e)" using n(1)[of e] by simp
    with i5 e show "children s e = {} \<and> cause (events s' ! e) \<noteq> Some e"
      by (simp add: pending_ok_def)
  qed
  have 6: "count_ok s' P cur"
    unfolding count_ok_def l ct
  proof (intro allI)
    fix e
    show "count_complete s e =
      (if e < length (events s) \<and> complete (events s' ! e) \<and> cause (events s' ! e) = None
          \<and> e \<notin> set P \<and> cur \<noteq> Some e then 1 else 0)"
    proof (cases "e < length (events s)")
      case True
      then have "complete (events s' ! e) = complete (events s ! e)"
        "cause (events s' ! e) = cause (events s ! e)" using n(1)[of e] n(3)[of e] by simp_all
      then show ?thesis using i6[unfolded count_ok_def, rule_format, of e] by simp
    next
      case False
      then show ?thesis using i6[unfolded count_ok_def, rule_format, of e] by simp
    qed
  qed
  have 7: "sync_ok s'"
    unfolding sync_ok_def l
  proof (intro allI impI)
    fix e assume e: "e < length (events s)"
    then show "waitingHandlers (events s' ! e) = 0" using i7 n(5)[of e] by (simp add: sync_ok_def)
  qed
  show ?thesis unfolding tracking_inv_def core_inv_def using 1 2 3 4 5 6 7 by blast
qed

definition tracked :: "thread \<Rightarrow> event \<Rightarrow> 'u mstate \<Rightarrow> bool" where
  "tracked thr x s = (executing_thread s = Some thr \<and> kind x \<noteq> Signal \<and>
     (\<exists>c. currently_handling s = Some c \<and> cause (events s ! c) \<noteq> None))"

lemma fire_new_len: "length (events (fire_new thr x chs s)) = Suc (length (events s))"
  by (simp add: fire_new_def new_event_def fireEvent_def fire_def upd_event_def Let_def
      split: option.splits)

lemma fire_new_old:
  assumes i: "i < length (events s)"
    and ch: "\<And>c. currently_handling s = Some c \<Longrightarrow> c < length (events s)"
  shows "events (fire_new thr x chs s) ! i =
     (if tracked thr x s \<and> currently_handling s = Some i
      then (events s ! i)\<lparr>effects := effects (events s ! i) + 1\<rparr> else events s ! i)"
proof (cases "currently_handling s")
  case None
  then show ?thesis using i
    by (simp add: fire_new_def new_event_def fireEvent_def fire_def upd_event_def Let_def
        tracked_def nth_append)
next
  case (Some c)
  then have c: "c < length (events s)" using ch by simp
  show ?thesis using i c Some
    by (auto simp: fire_new_def new_event_def fireEvent_def fire_def upd_event_def Let_def
        tracked_def nth_append nth_list_update)
qed

lemma fire_new_new:
  assumes ch: "\<And>c. currently_handling s = Some c \<Longrightarrow> c < length (events s)"
  shows "cause (events (fire_new thr x chs s) ! length (events s))
           = (if tracked thr x s then currently_handling s else cause x)"
    and "effects (events (fire_new thr x chs s) ! length (events s))
           = (if tracked thr x s then 1 else effects x)"
    and "complete (events (fire_new thr x chs s) ! length (events s)) = complete x"
    and "kind (events (fire_new thr x chs s) ! length (events s)) = kind x"
    and "waitingHandlers (events (fire_new thr x chs s) ! length (events s)) = waitingHandlers x"
proof -
  show "cause (events (fire_new thr x chs s) ! length (events s))
           = (if tracked thr x s then currently_handling s else cause x)"
    using ch
    by (cases "currently_handling s")
       (auto simp: fire_new_def new_event_def fireEvent_def fire_def upd_event_def Let_def
        tracked_def nth_append nth_list_update)
  show "effects (events (fire_new thr x chs s) ! length (events s))
           = (if tracked thr x s then 1 else effects x)"
    using ch
    by (cases "currently_handling s")
       (auto simp: fire_new_def new_event_def fireEvent_def fire_def upd_event_def Let_def
        tracked_def nth_append nth_list_update)
  show "complete (events (fire_new thr x chs s) ! length (events s)) = complete x"
    using ch
    by (cases "currently_handling s")
       (auto simp: fire_new_def new_event_def fireEvent_def fire_def upd_event_def Let_def
        tracked_def nth_append nth_list_update)
  show "kind (events (fire_new thr x chs s) ! length (events s)) = kind x"
    using ch
    by (cases "currently_handling s")
       (auto simp: fire_new_def new_event_def fireEvent_def fire_def upd_event_def Let_def
        tracked_def nth_append nth_list_update)
  show "waitingHandlers (events (fire_new thr x chs s) ! length (events s)) = waitingHandlers x"
    using ch
    by (cases "currently_handling s")
       (auto simp: fire_new_def new_event_def fireEvent_def fire_def upd_event_def Let_def
        tracked_def nth_append nth_list_update)
qed

lemma fire_new_q:
  "queue (fire_new thr x chs s) = queue s @ [(length (events s), fire_channels (mchannel (root s)) x chs)]"
  by (simp add: fire_new_def new_event_def fireEvent_def fire_def upd_event_def Let_def
      split: option.splits)

lemma fire_new_ch:
  "currently_handling (fire_new thr x chs s) = currently_handling s"
  "executing_thread (fire_new thr x chs s) = executing_thread s"
  "root (fire_new thr x chs s) = root s"
  "tasks (fire_new thr x chs s) = tasks s"
  "cache (fire_new thr x chs s) = cache s"
  by (simp_all add: fire_new_def new_event_def fireEvent_def fire_def upd_event_def Let_def
      split: option.splits)

lemma fire_new_old_fields:
  assumes i: "i < length (events s)"
    and ch: "\<And>c. currently_handling s = Some c \<Longrightarrow> c < length (events s)"
  shows "cause (events (fire_new thr x chs s) ! i) = cause (events s ! i)"
    and "complete (events (fire_new thr x chs s) ! i) = complete (events s ! i)"
    and "kind (events (fire_new thr x chs s) ! i) = kind (events s ! i)"
    and "waitingHandlers (events (fire_new thr x chs s) ! i) = waitingHandlers (events s ! i)"
    and "effects (events (fire_new thr x chs s) ! i) =
           effects (events s ! i) + (if tracked thr x s \<and> currently_handling s = Some i then 1 else 0)"
  using fire_new_old[OF i ch, of thr x chs] by (simp_all split: if_splits)

lemma finite_children [simp]: "finite (children s e)"
  by (simp add: children_def)

lemma children_fire_new:
  assumes ch: "\<And>c. currently_handling s = Some c \<Longrightarrow> c < length (events s)"
    and x: "cause x = None"
  shows "children (fire_new thr x chs s) e =
     (if tracked thr x s \<and> currently_handling s = Some e
      then insert (length (events s)) (children s e) else children s e)"
proof -
  let ?s' = "fire_new thr x chs s"
  let ?n = "length (events s)"
  have old: "\<And>c. c < ?n \<Longrightarrow> cause (events ?s' ! c) = cause (events s ! c)"
    using fire_new_old_fields(1)[OF _ ch] by blast
  have new: "cause (events ?s' ! ?n) = (if tracked thr x s then currently_handling s else None)"
    using fire_new_new(1)[OF ch, of thr x chs] x by simp
  have mem: "\<And>c. (c \<in> children ?s' e) =
      ((c < ?n \<and> c \<noteq> e \<and> cause (events s ! c) = Some e) \<or>
       (c = ?n \<and> c \<noteq> e \<and> tracked thr x s \<and> currently_handling s = Some e))"
  proof -
    fix c
    show "(c \<in> children ?s' e) =
      ((c < ?n \<and> c \<noteq> e \<and> cause (events s ! c) = Some e) \<or>
       (c = ?n \<and> c \<noteq> e \<and> tracked thr x s \<and> currently_handling s = Some e))"
    proof (cases "c < ?n")
      case True
      then show ?thesis using old[OF True] by (simp add: children_def fire_new_len)
    next
      case False
      show ?thesis
      proof (cases "c = ?n")
        case True
        then show ?thesis using new by (auto simp: children_def fire_new_len)
      next
        case False
        with \<open>\<not> c < ?n\<close> show ?thesis by (simp add: children_def fire_new_len)
      qed
    qed
  qed
  have ne: "currently_handling s = Some e \<Longrightarrow> ?n \<noteq> e" using ch by auto
  show ?thesis
  proof (intro set_eqI)
    fix c
    show "(c \<in> children ?s' e) =
       (c \<in> (if tracked thr x s \<and> currently_handling s = Some e
              then insert ?n (children s e) else children s e))"
      unfolding mem using ne by (auto simp: children_def)
  qed
qed

lemma count_complete_kinds:
  "count_complete s e =
     length (filter (\<lambda>k. case k of Complete e' v \<Rightarrow> e' = e | _ \<Rightarrow> False) (map kind (events s)))"
proof -
  have "\<And>es. length (filter (is_complete_of e) es)
      = length (filter (\<lambda>k. case k of Complete e' v \<Rightarrow> e' = e | _ \<Rightarrow> False) (map kind es))"
    by (induct_tac es) auto
  then show ?thesis by (simp add: count_complete_def)
qed

lemma kinds_fire_new:
  assumes ch: "\<And>c. currently_handling s = Some c \<Longrightarrow> c < length (events s)"
  shows "map kind (events (fire_new thr x chs s)) = map kind (events s) @ [kind x]"
proof (rule nth_equalityI)
  show "length (map kind (events (fire_new thr x chs s))) = length (map kind (events s) @ [kind x])"
    by (simp add: fire_new_len)
next
  fix i assume "i < length (map kind (events (fire_new thr x chs s)))"
  then have i: "i < Suc (length (events s))" by (simp add: fire_new_len)
  show "map kind (events (fire_new thr x chs s)) ! i = (map kind (events s) @ [kind x]) ! i"
  proof (cases "i < length (events s)")
    case True
    then show ?thesis
      using fire_new_old_fields(3)[OF True ch, of thr x chs] i
      by (simp add: fire_new_len nth_append)
  next
    case False
    with i have "i = length (events s)" by simp
    then show ?thesis
      using fire_new_new(4)[OF ch, of thr x chs]
      by (simp add: fire_new_len nth_append)
  qed
qed

lemma count_fire_new:
  assumes ch: "\<And>c. currently_handling s = Some c \<Longrightarrow> c < length (events s)"
  shows "count_complete (fire_new thr x chs s) e =
     count_complete s e + (if is_complete_of e x then 1 else 0)"
  by (simp add: count_complete_kinds kinds_fire_new[OF ch] split: ekind.splits)

definition not_complete_kind :: "event \<Rightarrow> bool" where
  "not_complete_kind x = (case kind x of Complete e v \<Rightarrow> False | _ \<Rightarrow> True)"

lemma not_complete_kind_of: "not_complete_kind x \<Longrightarrow> \<not> is_complete_of e x"
  by (simp add: not_complete_kind_def split: ekind.splits)

lemma own_append_old: "e \<noteq> n \<Longrightarrow> own (P @ [n]) cur e = own P cur e"
  by (simp add: own_def)

lemma fire_new_core:
  assumes inv: "core_inv s P cur"
    and ch: "currently_handling s = None \<or>
             (\<exists>E. currently_handling s = Some E \<and> E < length (events s) \<and> E \<notin> set P)"
    and x: "cause x = None" "waitingHandlers x = 0"
  shows "core_inv (fire_new thr x chs s) (P @ [length (events s)]) cur"
proof -
  let ?s' = "fire_new thr x chs s"
  let ?n = "length (events s)"
  let ?T = "tracked thr x s"
  from inv have i1: "pend_ok s P cur" and i2: "cause_ok s" and i3: "effects_ok s P cur"
    and i4: "done_ok s P cur" and i5: "pending_ok s P" and i7: "sync_ok s"
    by (simp_all add: core_inv_def)
  have chl: "\<And>c. currently_handling s = Some c \<Longrightarrow> c < ?n" using ch by auto
  have chP: "\<And>c. currently_handling s = Some c \<Longrightarrow> c \<notin> set P" using ch by auto
  note old = fire_new_old_fields[OF _ chl, of _ thr x chs]
  note new = fire_new_new[OF chl, of thr x chs]
  note chn = children_fire_new[OF chl x(1), of thr chs]
  have len: "length (events ?s') = Suc ?n" by (simp add: fire_new_len)
  have Pn: "\<And>e. e \<in> set P \<Longrightarrow> e < ?n" using i1 by (simp add: pend_ok_def)
  have nP: "?n \<notin> set P" using Pn by blast
  have nch: "\<And>e. ?n \<notin> children s e" by (simp add: children_def)
  have 1: "pend_ok ?s' (P @ [?n]) cur"
    using i1 nP by (auto simp: pend_ok_def len)
  have 2: "cause_ok ?s'"
    unfolding cause_ok_def len
  proof (intro allI impI)
    fix c p assume c: "c < Suc ?n" and cp: "cause (events ?s' ! c) = Some p"
    show "p \<le> c \<and> cause (events ?s' ! p) \<noteq> None"
    proof (cases "c < ?n")
      case True
      then have "cause (events s ! c) = Some p" using cp old(1)[of c] by simp
      with i2 True have p: "p \<le> c" "cause (events s ! p) \<noteq> None" by (auto simp: cause_ok_def)
      then have "p < ?n" using True by simp
      then show ?thesis using p old(1)[of p] by simp
    next
      case False
      with c have cn: "c = ?n" by simp
      with cp new(1) x(1) have T: "?T" and E: "currently_handling s = Some p"
        by (auto split: if_splits)
      from E have pn: "p < ?n" using chl by simp
      from T E have "cause (events s ! p) \<noteq> None" by (simp add: tracked_def)
      then show ?thesis using pn cn old(1)[of p] by simp
    qed
  qed
  have 3: "effects_ok ?s' (P @ [?n]) cur"
    unfolding effects_ok_def len
  proof (intro allI impI)
    fix e assume e: "e < Suc ?n" and tr: "cause (events ?s' ! e) \<noteq> None"
    show "effects (events ?s' ! e) = own (P @ [?n]) cur e + int (card (children ?s' e))"
    proof (cases "e < ?n")
      case True
      then have tr0: "cause (events s ! e) \<noteq> None" using tr old(1)[of e] by simp
      with i3 True have ef: "effects (events s ! e) = own P cur e + int (card (children s e))"
        by (simp add: effects_ok_def)
      have ne: "e \<noteq> ?n" using True by simp
      show ?thesis
      proof (cases "?T \<and> currently_handling s = Some e")
        case True
        then have "children ?s' e = insert ?n (children s e)" using chn[of e] by simp
        then have "card (children ?s' e) = Suc (card (children s e))" using nch by simp
        then show ?thesis using ef old(5)[OF \<open>e < ?n\<close>] True own_append_old[OF ne] by simp
      next
        case False
        then have "children ?s' e = children s e" using chn[of e] by auto
        then show ?thesis using ef old(5)[OF \<open>e < ?n\<close>] False own_append_old[OF ne] by auto
      qed
    next
      case False
      with e have en: "e = ?n" by simp
      with tr new(1) x(1) have T: "?T" by (auto split: if_splits)
      have "currently_handling s \<noteq> Some ?n" using chl by auto
      then have "children ?s' ?n = children s ?n" using chn[of ?n] by simp
      moreover have "children s ?n = {}"
      proof -
        have "\<And>c. c < ?n \<Longrightarrow> cause (events s ! c) \<noteq> Some ?n"
          using i2 by (auto simp: cause_ok_def)
        then show ?thesis by (auto simp: children_def)
      qed
      ultimately show ?thesis using en new(2) T by (simp add: own_def)
    qed
  qed
  have 4: "done_ok ?s' (P @ [?n]) cur"
    unfolding done_ok_def len
  proof (intro allI impI)
    fix e assume e: "e < Suc ?n"
      and h: "cause (events ?s' ! e) \<noteq> None \<and> e \<notin> set (P @ [?n]) \<and> cur \<noteq> Some e"
    then have en: "e < ?n" by auto
    then have "cause (events s ! e) \<noteq> None" using h old(1)[of e] by simp
    with i4 en h have "children s e \<noteq> {}" by (simp add: done_ok_def)
    then show "children ?s' e \<noteq> {}" using chn[of e] by auto
  qed
  have 5: "pending_ok ?s' (P @ [?n])"
    unfolding pending_ok_def
  proof (intro ballI)
    fix e assume "e \<in> set (P @ [?n])"
    then consider (inP) "e \<in> set P" | (isn) "e = ?n" by auto
    then show "children ?s' e = {} \<and> cause (events ?s' ! e) \<noteq> Some e"
    proof cases
      case inP
      then have en: "e < ?n" using Pn by simp
      have "currently_handling s \<noteq> Some e" using chP inP by auto
      then have "children ?s' e = children s e" using chn[of e] by simp
      then show ?thesis using i5 inP old(1)[OF en]
        by (simp add: pending_ok_def)
    next
      case isn
      have "currently_handling s \<noteq> Some ?n" using chl by auto
      then have "children ?s' ?n = children s ?n" using chn[of ?n] by simp
      moreover have "children s ?n = {}"
      proof -
        have "\<And>c. c < ?n \<Longrightarrow> cause (events s ! c) \<noteq> Some ?n"
          using i2 by (auto simp: cause_ok_def)
        then show ?thesis by (auto simp: children_def)
      qed
      moreover have "cause (events ?s' ! ?n) \<noteq> Some ?n"
        using new(1) x(1) chl by (auto split: if_splits)
      ultimately show ?thesis using isn by simp
    qed
  qed
  have 7: "sync_ok ?s'"
    unfolding sync_ok_def len
  proof (intro allI impI)
    fix e assume e: "e < Suc ?n"
    show "waitingHandlers (events ?s' ! e) = 0"
    proof (cases "e < ?n")
      case True
      then show ?thesis using i7 old(4)[OF True] by (simp add: sync_ok_def)
    next
      case False
      with e have "e = ?n" by simp
      then show ?thesis using new(5) x(2) by simp
    qed
  qed
  show ?thesis unfolding core_inv_def using 1 2 3 4 5 7 by blast
qed


lemma fire_new_inv:
  assumes inv: "tracking_inv s P cur"
    and ch: "currently_handling s = None \<or>
             (\<exists>E. currently_handling s = Some E \<and> E < length (events s) \<and> E \<notin> set P)"
    and x: "cause x = None" "not_complete_kind x" "waitingHandlers x = 0"
  shows "tracking_inv (fire_new thr x chs s) (P @ [length (events s)]) cur"
proof -
  let ?s' = "fire_new thr x chs s"
  let ?n = "length (events s)"
  from inv have c: "core_inv s P cur" and i6: "count_ok s P cur" by (simp_all add: tracking_inv_def)
  have chl: "\<And>c. currently_handling s = Some c \<Longrightarrow> c < ?n" using ch by auto
  note old = fire_new_old_fields[OF _ chl, of _ thr x chs]
  have len: "length (events ?s') = Suc ?n" by (simp add: fire_new_len)
  have ct: "\<And>e. count_complete ?s' e = count_complete s e"
    using count_fire_new[OF chl, of thr x chs] not_complete_kind_of[OF x(2)] by simp
  have 6: "count_ok ?s' (P @ [?n]) cur"
    unfolding count_ok_def len ct
  proof (intro allI)
    fix e
    show "count_complete s e =
      (if e < Suc ?n \<and> complete (events ?s' ! e) \<and> cause (events ?s' ! e) = None
          \<and> e \<notin> set (P @ [?n]) \<and> cur \<noteq> Some e then 1 else 0)"
    proof (cases "e < ?n")
      case True
      then show ?thesis
        using i6[unfolded count_ok_def, rule_format, of e] old(1)[OF True] old(2)[OF True]
        by auto
    next
      case False
      then show ?thesis
        using i6[unfolded count_ok_def, rule_format, of e] by auto
    qed
  qed
  from fire_new_core[OF c ch x(1,3)] 6 show ?thesis by (simp add: tracking_inv_def)
qed

text \<open>
  One round of the loop of \<open>_eventDone\<close>: the decrement, and \<open>collapse\<close>, which fires
  \<open>Complete\<close> and deletes the \<open>cause\<close>.
\<close>

definition collapse :: "eid \<Rightarrow> 'u mstate \<Rightarrow> 'u mstate" where
  "collapse e s = upd_event e (\<lambda>x. x\<lparr>cause := None\<rparr>) (upd_event e (\<lambda>x. x\<lparr>effects := effects x - 1\<rparr>) s)"

lemma collapse_len [simp]: "length (events (collapse e s)) = length (events s)"
  by (simp add: collapse_def)

lemma collapse_nth:
  "events (collapse e s) ! i =
     (if i = e \<and> e < length (events s)
      then (events s ! e)\<lparr>effects := effects (events s ! e) - 1, cause := None\<rparr>
      else events s ! i)"
  by (simp add: collapse_def events_upd_event_nth)

lemma collapse_other [simp]:
  "queue (collapse e s) = queue s" "currently_handling (collapse e s) = currently_handling s"
  by (simp_all add: collapse_def)

lemma children_collapse:
  assumes "e < length (events s)"
  shows "children (collapse e s) p = children s p - {e}"
  using assms by (auto simp: children_def collapse_nth)

lemma count_collapse: "count_complete (collapse e s) e' = count_complete s e'"
proof -
  have "map kind (events (collapse e s)) = map kind (events s)"
    by (rule nth_equalityI) (simp_all add: collapse_nth)
  then show ?thesis by (simp add: count_complete_kinds)
qed

lemma dec_len [simp]:
  "length (events (upd_event e f s)) = length (events s)"
  by (simp add: upd_event_def)

lemma children_dec:
  "children (upd_event e (\<lambda>x. x\<lparr>effects := g x\<rparr>) s) p = children s p"
  by (auto simp: children_def events_upd_event_nth)

lemma count_dec:
  "count_complete (upd_event e (\<lambda>x. x\<lparr>effects := g x\<rparr>) s) e' = count_complete s e'"
proof -
  have "map kind (events (upd_event e (\<lambda>x. x\<lparr>effects := g x\<rparr>) s)) = map kind (events s)"
    by (rule nth_equalityI) (simp_all add: events_upd_event_nth)
  then show ?thesis by (simp add: count_complete_kinds)
qed

lemma step_untracked:
  assumes inv: "tracking_inv s P (Some e)"
    and u: "cause (events s ! e) = None" and nc: "\<not> complete (events s ! e)"
  shows "tracking_inv s P None"
proof -
  from inv have i1: "pend_ok s P (Some e)" and i2: "cause_ok s" and i3: "effects_ok s P (Some e)"
    and i4: "done_ok s P (Some e)" and i5: "pending_ok s P" and i6: "count_ok s P (Some e)"
    and i7: "sync_ok s"
    by (simp_all add: tracking_inv_def core_inv_def)
  have 1: "pend_ok s P None" using i1 by (simp add: pend_ok_def)
  have 3: "effects_ok s P None"
    unfolding effects_ok_def
  proof (intro allI impI)
    fix p assume p: "p < length (events s)" and t: "cause (events s ! p) \<noteq> None"
    then have "p \<noteq> e" using u by auto
    then have "own P None p = own P (Some e) p" by (simp add: own_def)
    then show "effects (events s ! p) = own P None p + int (card (children s p))"
      using i3 p t by (simp add: effects_ok_def)
  qed
  have 4: "done_ok s P None"
    unfolding done_ok_def
  proof (intro allI impI)
    fix p assume p: "p < length (events s)"
      and h: "cause (events s ! p) \<noteq> None \<and> p \<notin> set P \<and> None \<noteq> Some p"
    then have "p \<noteq> e" using u by auto
    then show "children s p \<noteq> {}" using i4 p h by (simp add: done_ok_def)
  qed
  have 6: "count_ok s P None"
    unfolding count_ok_def
  proof (intro allI)
    fix p
    show "count_complete s p =
      (if p < length (events s) \<and> complete (events s ! p) \<and> cause (events s ! p) = None
          \<and> p \<notin> set P \<and> None \<noteq> Some p then 1 else 0)"
      using i6[unfolded count_ok_def, rule_format, of p] nc by (cases "p = e") auto
  qed
  show ?thesis unfolding tracking_inv_def core_inv_def using 1 i2 3 4 i5 6 i7 by blast
qed

lemma step_remaining:
  assumes inv: "tracking_inv s P (Some e)"
    and t: "cause (events s ! e) \<noteq> None" and pos: "effects (events s ! e) - 1 > 0"
  shows "tracking_inv (upd_event e (\<lambda>x. x\<lparr>effects := effects x - 1\<rparr>) s) P None"
proof -
  let ?s' = "upd_event e (\<lambda>x. x\<lparr>effects := effects x - 1\<rparr>) s"
  from inv have i1: "pend_ok s P (Some e)" and i2: "cause_ok s" and i3: "effects_ok s P (Some e)"
    and i4: "done_ok s P (Some e)" and i5: "pending_ok s P" and i6: "count_ok s P (Some e)"
    and i7: "sync_ok s"
    by (simp_all add: tracking_inv_def core_inv_def)
  have e: "e < length (events s)" "e \<notin> set P" using i1 by (simp_all add: pend_ok_def)
  have cs: "\<And>i. cause (events ?s' ! i) = cause (events s ! i)"
    by (simp add: events_upd_event_nth)
  have cm: "\<And>i. complete (events ?s' ! i) = complete (events s ! i)"
    by (simp add: events_upd_event_nth)
  have wh: "\<And>i. waitingHandlers (events ?s' ! i) = waitingHandlers (events s ! i)"
    by (simp add: events_upd_event_nth)
  have ef: "\<And>i. effects (events ?s' ! i) = (if i = e then effects (events s ! e) - 1 else effects (events s ! i))"
    using e by (simp add: events_upd_event_nth)
  note ch = children_dec[of e "\<lambda>x. effects x - 1" s]
  note ct = count_dec[of e "\<lambda>x. effects x - 1" s]
  have ee: "effects (events s ! e) = 1 + int (card (children s e))"
    using i3 e t by (simp add: effects_ok_def own_def)
  have 1: "pend_ok ?s' P None" using i1 by (simp add: pend_ok_def)
  have 2: "cause_ok ?s'" using i2 by (simp add: cause_ok_def cs)
  have 3: "effects_ok ?s' P None"
    unfolding effects_ok_def
  proof (intro allI impI)
    fix p assume p: "p < length (events ?s')" and tp: "cause (events ?s' ! p) \<noteq> None"
    show "effects (events ?s' ! p) = own P None p + int (card (children ?s' p))"
    proof (cases "p = e")
      case True
      then show ?thesis using ee e by (simp add: ef ch own_def)
    next
      case False
      then have "own P None p = own P (Some e) p" by (simp add: own_def)
      then show ?thesis using i3 p tp False by (simp add: effects_ok_def ef ch cs)
    qed
  qed
  have 4: "done_ok ?s' P None"
    unfolding done_ok_def
  proof (intro allI impI)
    fix p assume p: "p < length (events ?s')"
      and h: "cause (events ?s' ! p) \<noteq> None \<and> p \<notin> set P \<and> None \<noteq> Some p"
    show "children ?s' p \<noteq> {}"
    proof (cases "p = e")
      case True
      have "card (children s e) > 0" using ee pos by simp
      then have "children s e \<noteq> {}" by auto
      then show ?thesis using True by (simp add: ch)
    next
      case False
      then show ?thesis using i4 p h by (simp add: done_ok_def ch cs)
    qed
  qed
  have 5: "pending_ok ?s' P" using i5 by (simp add: pending_ok_def ch cs)
  have 6: "count_ok ?s' P None"
    unfolding count_ok_def
  proof (intro allI)
    fix p
    show "count_complete ?s' p =
      (if p < length (events ?s') \<and> complete (events ?s' ! p) \<and> cause (events ?s' ! p) = None
          \<and> p \<notin> set P \<and> None \<noteq> Some p then 1 else 0)"
      using i6[unfolded count_ok_def, rule_format, of p] t
      by (cases "p = e") (auto simp: ct cs cm)
  qed
  have 7: "sync_ok ?s'" using i7 by (simp add: sync_ok_def wh)
  show ?thesis unfolding tracking_inv_def core_inv_def using 1 2 3 4 5 6 7 by blast
qed

lemma step_collapse_core:
  assumes core: "core_inv s P (Some e)"
    and t: "cause (events s ! e) = Some c" and np: "\<not> effects (events s ! e) - 1 > 0"
  shows "core_inv (collapse e s) P (if c = e then None else Some c)"
    and "children s e = {}" and "c \<le> e" and "cause (events s ! c) \<noteq> None"
proof -
  let ?s' = "collapse e s"
  let ?cur = "if c = e then None else Some c"
  from core have i1: "pend_ok s P (Some e)" and i2: "cause_ok s" and i3: "effects_ok s P (Some e)"
    and i4: "done_ok s P (Some e)" and i5: "pending_ok s P" and i7: "sync_ok s"
    by (simp_all add: core_inv_def)
  have e: "e < length (events s)" "e \<notin> set P" using i1 by (simp_all add: pend_ok_def)
  have ee: "effects (events s ! e) = 1 + int (card (children s e))"
    using i3 e t by (simp add: effects_ok_def own_def)
  then have "card (children s e) = 0" using np by simp
  then show ce: "children s e = {}" by simp
  show c: "c \<le> e" and ct: "cause (events s ! c) \<noteq> None"
    using i2 e t by (auto simp: cause_ok_def)
  have cl: "c < length (events s)" using c e by simp
  have ech: "c \<noteq> e \<Longrightarrow> e \<in> children s c" using e t by (simp add: children_def)
  have cP: "c \<noteq> e \<Longrightarrow> c \<notin> set P" using ech i5 by (auto simp: pending_ok_def)
  have cs: "\<And>i. cause (events ?s' ! i) = (if i = e then None else cause (events s ! i))"
    using e by (simp add: collapse_nth)
  have ef: "\<And>i. i \<noteq> e \<Longrightarrow> effects (events ?s' ! i) = effects (events s ! i)"
    by (simp add: collapse_nth)
  have wh: "\<And>i. waitingHandlers (events ?s' ! i) = waitingHandlers (events s ! i)"
    by (simp add: collapse_nth)
  note ch = children_collapse[OF e(1)]
  have notin: "\<And>p. p \<noteq> c \<or> c = e \<Longrightarrow> e \<notin> children s p"
    using t by (auto simp: children_def)
  have 1: "pend_ok ?s' P ?cur" using i1 cl cP by (simp add: pend_ok_def)
  have 2: "cause_ok ?s'"
    unfolding cause_ok_def
  proof (intro allI impI)
    fix c' p assume c': "c' < length (events ?s')" and cp: "cause (events ?s' ! c') = Some p"
    then have ne: "c' \<noteq> e" and cp0: "cause (events s ! c') = Some p"
      by (auto simp: cs split: if_splits)
    with i2 c' have p: "p \<le> c'" "cause (events s ! p) \<noteq> None" by (auto simp: cause_ok_def)
    have "p \<noteq> e"
    proof
      assume "p = e"
      then have "c' \<in> children s e" using c' ne cp0 by (simp add: children_def)
      then show False using ce by simp
    qed
    then show "p \<le> c' \<and> cause (events ?s' ! p) \<noteq> None" using p by (simp add: cs)
  qed
  have 3: "effects_ok ?s' P ?cur"
    unfolding effects_ok_def
  proof (intro allI impI)
    fix p assume p: "p < length (events ?s')" and tp: "cause (events ?s' ! p) \<noteq> None"
    then have ne: "p \<noteq> e" and tp0: "cause (events s ! p) \<noteq> None"
      by (auto simp: cs split: if_splits)
    have e0: "effects (events s ! p) = own P None p + int (card (children s p))"
      using i3 p tp0 ne by (simp add: effects_ok_def own_def)
    show "effects (events ?s' ! p) = own P ?cur p + int (card (children ?s' p))"
    proof (cases "p = c \<and> c \<noteq> e")
      case True
      then have "e \<in> children s p" using ech by simp
      then have "card (children s p) = Suc (card (children s p - {e}))"
        using card_Suc_Diff1[of "children s p" e] by simp
      moreover have "own P ?cur p = 1" "own P None p = 0" using True cP by (simp_all add: own_def)
      ultimately show ?thesis using e0 ne by (simp add: ef ch)
    next
      case False
      then have "e \<notin> children s p" using notin[of p] by blast
      then have "children s p - {e} = children s p" by simp
      moreover have "own P ?cur p = own P None p" using False by (auto simp: own_def)
      ultimately show ?thesis using e0 ne by (simp add: ef ch)
    qed
  qed
  have 4: "done_ok ?s' P ?cur"
    unfolding done_ok_def
  proof (intro allI impI)
    fix p assume p: "p < length (events ?s')"
      and h: "cause (events ?s' ! p) \<noteq> None \<and> p \<notin> set P \<and> ?cur \<noteq> Some p"
    then have ne: "p \<noteq> e" and tp0: "cause (events s ! p) \<noteq> None"
      by (auto simp: cs split: if_splits)
    from i4 p h ne tp0 have n0: "children s p \<noteq> {}" by (simp add: done_ok_def)
    have "p \<noteq> c \<or> c = e" using h by (auto split: if_splits)
    then have "e \<notin> children s p" using notin[of p] by blast
    then show "children ?s' p \<noteq> {}" using n0 by (simp add: ch)
  qed
  have 5: "pending_ok ?s' P"
    unfolding pending_ok_def
  proof (intro ballI)
    fix p assume p: "p \<in> set P"
    then have "p \<noteq> e" using e by auto
    then show "children ?s' p = {} \<and> cause (events ?s' ! p) \<noteq> Some p"
      using i5 p by (simp add: pending_ok_def ch cs)
  qed
  have 7: "sync_ok ?s'" using i7 by (simp add: sync_ok_def wh)
  show "core_inv ?s' P ?cur" unfolding core_inv_def using 1 2 3 4 5 7 by blast
qed

lemma fire_new_commute:
  assumes "currently_handling s = None" and "e < length (events s)"
  shows "upd_event e f (fire_new thr x chs s) = fire_new thr x chs (upd_event e f s)"
proof -
  have k: "kind (((events s)[e := f (events s ! e)] @ [x]) ! length (events s)) = kind x"
    by (simp add: nth_append)
  show ?thesis
    using assms
    by (simp add: fire_new_def new_event_def fireEvent_def fire_def upd_event_def Let_def
        nth_append list_update_append list_update_swap)
qed

lemma step_collapse:
  assumes inv: "tracking_inv s P (Some e)"
    and ch: "currently_handling s = None"
    and t: "cause (events s ! e) = Some c" and np: "\<not> effects (events s ! e) - 1 > 0"
    and X: "kind X = Complete e v" "cause X = None" "waitingHandlers X = 0"
  shows "tracking_inv
           (if complete (events s ! e) then fire_new thr X chs (collapse e s) else collapse e s)
           (if complete (events s ! e) then P @ [length (events s)] else P)
           (if c = e then None else Some c)"
proof -
  let ?s' = "collapse e s"
  let ?cur = "if c = e then None else Some c"
  let ?n = "length (events s)"
  from inv have core: "core_inv s P (Some e)" and i6: "count_ok s P (Some e)"
    by (simp_all add: tracking_inv_def)
  from core have i1: "pend_ok s P (Some e)" by (simp add: core_inv_def)
  have e: "e < ?n" "e \<notin> set P" using i1 by (simp_all add: pend_ok_def)
  have Pn: "\<And>p. p \<in> set P \<Longrightarrow> p < ?n" using i1 by (simp add: pend_ok_def)
  note sc = step_collapse_core[OF core t np]
  have ch': "currently_handling ?s' = None" using ch by simp
  have chl: "\<And>c. currently_handling ?s' = Some c \<Longrightarrow> c < length (events ?s')" using ch' by simp
  have cs: "\<And>i. cause (events ?s' ! i) = (if i = e then None else cause (events s ! i))"
    using e by (simp add: collapse_nth)
  have cm: "\<And>i. complete (events ?s' ! i) = complete (events s ! i)"
    by (simp add: collapse_nth)
  have rule0: "\<And>p. count_complete s p =
      (if p < ?n \<and> complete (events s ! p) \<and> cause (events s ! p) = None
          \<and> p \<notin> set P \<and> Some e \<noteq> Some p then 1 else 0)"
    using i6 by (simp add: count_ok_def)
  have cnone: "c \<noteq> e \<Longrightarrow> cause (events s ! c) \<noteq> None" using sc(4) .
  show ?thesis
  proof (cases "complete (events s ! e)")
    case False
    have "count_ok ?s' P ?cur"
      unfolding count_ok_def
    proof (intro allI)
      fix p
      show "count_complete ?s' p =
        (if p < length (events ?s') \<and> complete (events ?s' ! p) \<and> cause (events ?s' ! p) = None
            \<and> p \<notin> set P \<and> ?cur \<noteq> Some p then 1 else 0)"
        using rule0[of p] False cnone
        by (cases "p = e") (auto simp: count_collapse cs cm)
    qed
    then show ?thesis using sc(1) False by (simp add: tracking_inv_def)
  next
    case True
    let ?s3 = "fire_new thr X chs ?s'"
    have core3: "core_inv ?s3 (P @ [?n]) ?cur"
      using fire_new_core[OF sc(1) _ X(2,3), of thr chs] ch' by simp
    have ct: "\<And>p. count_complete ?s3 p = count_complete s p + (if p = e then 1 else 0)"
      using count_fire_new[OF chl, of thr X chs] X(1) by (simp add: count_collapse)
    have old1: "\<And>i. i < ?n \<Longrightarrow> cause (events ?s3 ! i) = (if i = e then None else cause (events s ! i))"
      using fire_new_old_fields(1)[of _ ?s' thr X chs] chl cs by simp
    have old2: "\<And>i. i < ?n \<Longrightarrow> complete (events ?s3 ! i) = complete (events s ! i)"
      using fire_new_old_fields(2)[of _ ?s' thr X chs] chl cm by simp
    have len: "length (events ?s3) = Suc ?n" by (simp add: fire_new_len)
    have "count_ok ?s3 (P @ [?n]) ?cur"
      unfolding count_ok_def len ct
    proof (intro allI)
      fix p
      show "count_complete s p + (if p = e then 1 else 0) =
        (if p < Suc ?n \<and> complete (events ?s3 ! p) \<and> cause (events ?s3 ! p) = None
            \<and> p \<notin> set (P @ [?n]) \<and> ?cur \<noteq> Some p then 1 else 0)"
      proof (cases "p < ?n")
        case lt: True
        show ?thesis
        proof (cases "p = e")
          case pe: True
          then show ?thesis using rule0[of p] lt True e old1[OF lt] old2[OF lt] by auto
        next
          case pe: False
          then show ?thesis using rule0[of p] lt cnone old1[OF lt] old2[OF lt] by auto
        qed
      next
        case ge: False
        then have "p \<noteq> e" using e by auto
        then show ?thesis using rule0[of p] ge by auto
      qed
    qed
    then show ?thesis using core3 True by (simp add: tracking_inv_def)
  qed
qed

lemma loop_body_commute:
  assumes "currently_handling s = None" and "e < length (events s)"
  shows "upd_event e (\<lambda>x. x\<lparr>cause := None\<rparr>)
           (if C then fire_new thr X chs (upd_event e (\<lambda>x. x\<lparr>effects := effects x - 1\<rparr>) s)
            else upd_event e (\<lambda>x. x\<lparr>effects := effects x - 1\<rparr>) s)
         = (if C then fire_new thr X chs (collapse e s) else collapse e s)"
proof -
  let ?s1 = "upd_event e (\<lambda>x. x\<lparr>effects := effects x - 1\<rparr>) s"
  have "currently_handling ?s1 = None" "e < length (events ?s1)" using assms by simp_all
  from fire_new_commute[OF this, of "\<lambda>x. x\<lparr>cause := None\<rparr>" thr X chs]
  show ?thesis by (simp add: collapse_def)
qed

lemma eventDone_loop_inv:
  assumes "tracking_inv s (R @ map fst (queue s)) (Some e)"
    and "currently_handling s = None"
    and "cause (events s ! e) = None \<longrightarrow> \<not> complete (events s ! e)"
    and "e < n0" and "n0 \<le> length (events s)"
  shows "tracking_inv (eventDone_loop thr n0 e s)
           (R @ map fst (queue (eventDone_loop thr n0 e s))) None \<and>
         currently_handling (eventDone_loop thr n0 e s) = None"
  using assms
proof (induction thr n0 e s rule: eventDone_loop.induct)
  case (1 thr n e s)
  let ?P = "R @ map fst (queue s)"
  note inv = "1.prems"(1) and ch = "1.prems"(2) and nc = "1.prems"(3)
    and en = "1.prems"(4) and nl = "1.prems"(5)
  have el: "e < length (events s)" using en nl by simp
  show ?case
  proof (cases "cause (events s ! e)")
    case None
    then have r: "eventDone_loop thr n e s = s"
      using en nl by (subst eventDone_loop.simps) simp
    from step_untracked[OF inv None] nc None ch show ?thesis by (simp add: r)
  next
    case (Some c)
    define s1 where "s1 = upd_event e (\<lambda>x. x\<lparr>effects := effects x - 1\<rparr>) s"
    have ef1: "effects (events s1 ! e) = effects (events s ! e) - 1"
      using el by (simp add: s1_def events_upd_event_nth)
    show ?thesis
    proof (cases "effects (events s ! e) - 1 > 0")
      case True
      then have r: "eventDone_loop thr n e s = s1"
        using en nl Some ef1 by (subst eventDone_loop.simps) (simp add: s1_def Let_def)
      have "tracking_inv s1 ?P None"
        unfolding s1_def by (rule step_remaining[OF inv _ True]) (simp add: Some)
      then show ?thesis using ch by (simp add: r s1_def)
    next
      case False
      define X where "X = derived (events s1 ! e) ''complete'' (Complete e (v_value (events s1 ! e)))"
      define chs where "chs = (case complete_channels (events s1 ! e) of
                                        None \<Rightarrow> channels (events s1 ! e)
                                      | Some cs \<Rightarrow> cs)"
      define s2 where "s2 = (if complete (events s1 ! e) then fire_new thr X chs s1 else s1)"
      define s3 where "s3 = upd_event e (\<lambda>x. x\<lparr>cause := None\<rparr>) s2"
      have nf: "\<not> 0 < effects (events s1 ! e)" using False ef1 by simp
      have r: "eventDone_loop thr n e s = eventDone_loop thr n c s3"
        using en nl Some nf
        by (subst eventDone_loop.simps) (simp add: s1_def[symmetric] Let_def X_def chs_def s2_def s3_def)
      have cm1: "complete (events s1 ! e) = complete (events s ! e)"
        using el by (simp add: s1_def events_upd_event_nth)
      have s3': "s3 = (if complete (events s ! e) then fire_new thr X chs (collapse e s) else collapse e s)"
      proof -
        have "s3 = upd_event e (\<lambda>x. x\<lparr>cause := None\<rparr>)
                (if complete (events s ! e) then fire_new thr X chs s1 else s1)"
          by (simp add: s3_def s2_def cm1)
        then show ?thesis unfolding s1_def using loop_body_commute[OF ch el, of "complete (events s ! e)" thr X chs]
          by simp
      qed
      have Xp: "kind X = Complete e (v_value (events s1 ! e))" "cause X = None" "waitingHandlers X = 0"
        by (simp_all add: X_def derived_def Event_def)
      have q3: "map fst (queue s3) =
          map fst (queue s) @ (if complete (events s ! e) then [length (events s)] else [])"
        by (simp add: s3' fire_new_q)
      have P3: "(if complete (events s ! e) then ?P @ [length (events s)] else ?P) = R @ map fst (queue s3)"
        by (simp add: q3)
      have inv3: "tracking_inv s3 (R @ map fst (queue s3)) (if c = e then None else Some c)"
        using step_collapse[OF inv ch Some False Xp, of thr chs] unfolding s3' P3[symmetric]
        by (auto split: if_splits)
      have ch3: "currently_handling s3 = None" using ch by (simp add: s3' fire_new_ch)
      have l3: "n \<le> length (events s3)" using nl by (simp add: s3' fire_new_len)
      have core: "core_inv s ?P (Some e)" using inv by (simp add: tracking_inv_def)
      note sc = step_collapse_core[OF core Some False]
      show ?thesis
      proof (cases "c = e")
        case True
        have "cause (events s3 ! e) = None"
        proof (cases "complete (events s ! e)")
          case True
          have "cause (events (fire_new thr X chs (collapse e s)) ! e) = cause (events (collapse e s) ! e)"
            by (rule fire_new_old_fields(1)) (simp_all add: el ch)
          then show ?thesis using True el by (simp add: s3' collapse_nth)
        next
          case False
          then show ?thesis using el by (simp add: s3' collapse_nth)
        qed
        then have "eventDone_loop thr n e s3 = s3"
          using en l3 by (subst eventDone_loop.simps) simp
        then show ?thesis using inv3 ch3 True by (simp add: r)
      next
        case ne: False
        have cl: "c < length (events s)" using sc(3) el by simp
        have "cause (events s3 ! c) = cause (events s ! c)"
        proof (cases "complete (events s ! e)")
          case True
          have "cause (events (fire_new thr X chs (collapse e s)) ! c) = cause (events (collapse e s) ! c)"
            by (rule fire_new_old_fields(1)) (simp_all add: cl ch)
          then show ?thesis using True ne by (simp add: s3' collapse_nth)
        next
          case False
          then show ?thesis using ne by (simp add: s3' collapse_nth)
        qed
        then have c3: "cause (events s3 ! c) = None \<longrightarrow> \<not> complete (events s3 ! c)"
          using sc(4) by auto
        have cn: "c < n" using sc(3) en by simp
        have inv3': "tracking_inv s3 (R @ map fst (queue s3)) (Some c)" using inv3 ne by simp
        have "e < n \<and> n \<le> length (events s)" using en nl by simp
        from "1.IH"[OF this Some s1_def nf _ s3_def inv3' ch3 c3 cn l3]
        show ?thesis by (simp add: r s2_def X_def chs_def)
      qed
    qed
  qed
qed

text \<open>
  Handlers that do not suspend: a call fires new events through \<open>fire\<close> and changes the
  data of the application, and returns a value that is not a generator or raises an
  exception that is not fatal. The events a handler fires are new objects, not
  \<open>Complete\<close> events.
\<close>

definition app_event :: "event \<Rightarrow> bool" where
  "app_event x = (cause x = None \<and> waitingHandlers x = 0 \<and> not_complete_kind x)"

definition fires :: "thread \<Rightarrow> (event \<times> chan list) list \<Rightarrow> 'u mstate \<Rightarrow> 'u mstate" where
  "fires thr specs s = fold (\<lambda>(x, chs). fire_new thr x chs) specs s"

definition synchronous :: "'u env \<Rightarrow> thread \<Rightarrow> bool" where
  "synchronous env thr =
     (\<forall>h eo eargs s. \<exists>specs u out.
        call env h eo eargs s = (out, fires thr specs (s\<lparr>app := u\<rparr>)) \<and>
        list_all (\<lambda>(x, chs). app_event x) specs \<and>
        (case out of
           Returns v \<Rightarrow> (case v of PGen g \<Rightarrow> False | _ \<Rightarrow> True)
         | Raises x \<Rightarrow> \<not> fatal x))"

definition handling :: "'u mstate \<Rightarrow> eid list \<Rightarrow> eid \<Rightarrow> eid option \<Rightarrow> bool \<Rightarrow> bool" where
  "handling s R E c0 k0 =
     (tracking_inv s (R @ map fst (queue s)) (Some E) \<and> currently_handling s = Some E \<and>
      cause (events s ! E) = c0 \<and> complete (events s ! E) = k0)"

lemma view_upd:
  assumes "\<And>x. cause (f x) = cause x \<and> effects (f x) = effects x \<and> complete (f x) = complete x
             \<and> kind (f x) = kind x \<and> waitingHandlers (f x) = waitingHandlers x"
  shows "view (upd_event e f s) = view s"
proof (rule nth_equalityI)
  show "length (view (upd_event e f s)) = length (view s)" by (simp add: view_def)
next
  fix i assume "i < length (view (upd_event e f s))"
  then have i: "i < length (events s)" by (simp add: view_def)
  then show "view (upd_event e f s) ! i = view s ! i"
    using assms by (simp add: view_def events_upd_event_nth)
qed

lemma handling_cur:
  assumes "handling s R E c0 k0"
  shows "E < length (events s)" and "E \<notin> set (R @ map fst (queue s))"
  using assms by (simp_all add: handling_def tracking_inv_def core_inv_def pend_ok_def)

lemma handling_view:
  assumes h: "handling s R E c0 k0"
    and v: "view s' = view s" and q: "queue s' = queue s"
    and c: "currently_handling s' = currently_handling s"
  shows "handling s' R E c0 k0"
proof -
  note E = handling_cur[OF h]
  have "tracking_inv s' (R @ map fst (queue s)) (Some E)"
    using view_inv_imp[OF v] h by (simp add: handling_def)
  then show ?thesis
    using h q c view_nth(1)[OF v E(1)] view_nth(3)[OF v E(1)] by (simp add: handling_def)
qed

lemma handling_fire_new:
  assumes h: "handling s R E c0 k0"
    and x: "cause x = None" "not_complete_kind x" "waitingHandlers x = 0"
  shows "handling (fire_new thr x chs s) R E c0 k0"
proof -
  note E = handling_cur[OF h]
  from h have inv: "tracking_inv s (R @ map fst (queue s)) (Some E)"
    and ch: "currently_handling s = Some E" by (simp_all add: handling_def)
  have "currently_handling s = None \<or>
        (\<exists>E'. currently_handling s = Some E' \<and> E' < length (events s)
               \<and> E' \<notin> set (R @ map fst (queue s)))"
    using ch E by simp
  from fire_new_inv[OF inv this x, of thr chs]
  have "tracking_inv (fire_new thr x chs s) (R @ map fst (queue (fire_new thr x chs s))) (Some E)"
    by (simp add: fire_new_q)
  moreover have chl: "\<And>c. currently_handling s = Some c \<Longrightarrow> c < length (events s)"
    using ch E by simp
  ultimately show ?thesis
    using h fire_new_old_fields(1,2)[OF E(1) chl, of thr x chs]
    by (simp add: handling_def fire_new_ch)
qed

lemma handling_fires:
  assumes "handling s R E c0 k0" and "list_all (\<lambda>(x, chs). app_event x) specs"
  shows "handling (fires thr specs s) R E c0 k0"
  using assms
proof (induction specs arbitrary: s)
  case Nil
  then show ?case by (simp add: fires_def)
next
  case (Cons a specs)
  obtain x chs where a: "a = (x, chs)" by (cases a)
  from Cons.prems(2) a have x: "app_event x" and rest: "list_all (\<lambda>(x, chs). app_event x) specs"
    by simp_all
  from x have "handling (fire_new thr x chs s) R E c0 k0"
    using handling_fire_new[OF Cons.prems(1)] by (simp add: app_event_def)
  from Cons.IH[OF this rest] show ?case by (simp add: fires_def a)
qed

lemma handling_app:
  assumes "handling s R E c0 k0"
  shows "handling (s\<lparr>app := u\<rparr>) R E c0 k0"
  by (rule handling_view[OF assms]) (simp_all add: view_def)

lemma handling_upd:
  assumes "handling s R E c0 k0"
    and "\<And>x. cause (f x) = cause x \<and> effects (f x) = effects x \<and> complete (f x) = complete x
             \<and> kind (f x) = kind x \<and> waitingHandlers (f x) = waitingHandlers x"
  shows "handling (upd_event e f s) R E c0 k0"
  by (rule handling_view[OF assms(1) view_upd[OF assms(2)]]) simp_all

lemma derived_app: "not_complete_kind (derived x sfx k) = (case k of Complete e v \<Rightarrow> False | _ \<Rightarrow> True)"
  "cause (derived x sfx k) = None" "waitingHandlers (derived x sfx k) = 0"
  by (simp_all add: derived_def Event_def not_complete_kind_def)

lemma Event_app: "not_complete_kind (Event n k) = (case k of Complete e v \<Rightarrow> False | _ \<Rightarrow> True)"
  "cause (Event n k) = None" "waitingHandlers (Event n k) = 0"
  by (simp_all add: Event_def not_complete_kind_def)

lemma invoke_handling:
  assumes sy: "synchronous env thr" and h: "handling s R E c0 k0"
  shows "\<exists>v err s'. invoke env thr E eargs hdl error s = Inr (v, err, s') \<and>
           handling s' R E c0 k0 \<and> (case v of PGen g \<Rightarrow> False | _ \<Rightarrow> True)"
proof -
  from sy obtain specs u out where
    c: "call env hdl (if event_h hdl then Some E else None) eargs s = (out, fires thr specs (s\<lparr>app := u\<rparr>))"
    and sp: "list_all (\<lambda>(x, chs). app_event x) specs"
    and o: "case out of Returns v \<Rightarrow> (case v of PGen g \<Rightarrow> False | _ \<Rightarrow> True) | Raises x \<Rightarrow> \<not> fatal x"
    unfolding synchronous_def by blast
  let ?s1 = "fires thr specs (s\<lparr>app := u\<rparr>)"
  have h1: "handling ?s1 R E c0 k0"
    by (rule handling_fires[OF handling_app[OF h] sp])
  show ?thesis
  proof (cases out)
    case (Returns v)
    then show ?thesis using c o h1 by (simp add: invoke_def)
  next
    case (Raises x)
    then have nf: "\<not> fatal x" using o by simp
    let ?s2 = "upd_event E (\<lambda>y. y\<lparr>v_errors := True\<rparr>) ?s1"
    have h2: "handling ?s2 R E c0 k0" by (rule handling_upd[OF h1]) simp
    let ?s3 = "if failure (events ?s2 ! E)
               then fire_new thr (derived (events ?s2 ! E) ''failure'' (Failure E (PError x)))
                      (channels (events ?s2 ! E)) ?s2
               else ?s2"
    have h3: "handling ?s3 R E c0 k0"
      using handling_fire_new[OF h2, of "derived (events ?s2 ! E) ''failure'' (Failure E (PError x))"]
        h2 by (simp add: derived_app)
    let ?s4 = "fire_new thr (Event ''error'' (Error (PError x) (Some hdl))) [] ?s3"
    have h4: "handling ?s4 R E c0 k0"
      by (rule handling_fire_new[OF h3]) (simp_all add: Event_app)
    have "invoke env thr E eargs hdl error s = Inr (PError x, Some (PError x), ?s4)"
      using c Raises nf by (simp add: invoke_def Let_def)
    then show ?thesis using h4 by simp
  qed
qed

lemma store_value_handling:
  assumes h: "handling s R E c0 k0" and v: "case v of PGen g \<Rightarrow> False | _ \<Rightarrow> True"
  shows "handling (store_value E v s) R E c0 k0"
proof (cases v)
  case PNone
  then show ?thesis using h by (simp add: store_value_def)
next
  case (PGen g)
  then show ?thesis using v by simp
next
  case (PBool b)
  have "handling (upd_event E (\<lambda>y. y\<lparr>v_value := v\<rparr>) s) R E c0 k0"
    by (rule handling_upd[OF h]) simp
  then show ?thesis using PBool by (simp add: store_value_def)
next
  case (PInt n)
  have "handling (upd_event E (\<lambda>y. y\<lparr>v_value := v\<rparr>) s) R E c0 k0"
    by (rule handling_upd[OF h]) simp
  then show ?thesis using PInt by (simp add: store_value_def)
next
  case (PStr n)
  have "handling (upd_event E (\<lambda>y. y\<lparr>v_value := v\<rparr>) s) R E c0 k0"
    by (rule handling_upd[OF h]) simp
  then show ?thesis using PStr by (simp add: store_value_def)
next
  case (PError n)
  have "handling (upd_event E (\<lambda>y. y\<lparr>v_value := v\<rparr>) s) R E c0 k0"
    by (rule handling_upd[OF h]) simp
  then show ?thesis using PError by (simp add: store_value_def)
next
  case (PCallValue n)
  have "handling (upd_event E (\<lambda>y. y\<lparr>v_value := v\<rparr>) s) R E c0 k0"
    by (rule handling_upd[OF h]) simp
  then show ?thesis using PCallValue by (simp add: store_value_def)
qed

lemma dispatch_loop_handling:
  assumes sy: "synchronous env thr" and h: "handling s R E c0 k0"
  shows "\<exists>err called' s'. dispatch_loop env thr E eargs hs error called s = Inr (err, called', s') \<and>
           handling s' R E c0 k0"
  using h
proof (induction hs arbitrary: error called s)
  case Nil
  then show ?case by simp
next
  case (Cons hdl hs)
  let ?s0 = "upd_event E (\<lambda>y. y\<lparr>handler_e := Some hdl\<rparr>) s"
  have h0: "handling ?s0 R E c0 k0" by (rule handling_upd[OF Cons.prems]) simp
  from invoke_handling[OF sy h0, of eargs hdl error] obtain v err s1 where
    inv: "invoke env thr E eargs hdl error ?s0 = Inr (v, err, s1)"
    and h1: "handling s1 R E c0 k0" and v: "case v of PGen g \<Rightarrow> False | _ \<Rightarrow> True"
    by blast
  have h2: "handling (store_value E v s1) R E c0 k0" by (rule store_value_handling[OF h1 v])
  show ?case
  proof (cases "truthy v \<and> filter_h hdl")
    case True
    then show ?thesis using inv h2 by (simp add: Let_def)
  next
    case False
    from Cons.IH[OF h2, of err "called @ [(hdl, v)]"] obtain err' called' s' where
      "dispatch_loop env thr E eargs hs err (called @ [(hdl, v)]) (store_value E v s1) = Inr (err', called', s')"
      "handling s' R E c0 k0" by blast
    then show ?thesis using inv False by (auto simp: Let_def)
  qed
qed

definition finishing :: "'u mstate \<Rightarrow> eid list \<Rightarrow> eid \<Rightarrow> bool" where
  "finishing s R E = (tracking_inv s (R @ map fst (queue s)) (Some E) \<and> currently_handling s = None
        \<and> (cause (events s ! E) = None \<longrightarrow> \<not> complete (events s ! E)))"

lemma finishing_fire_new:
  assumes a: "finishing s R E"
    and x: "cause x = None" "not_complete_kind x" "waitingHandlers x = 0"
  shows "finishing (fire_new thr x chs s) R E"
proof -
  from a have E: "E < length (events s)"
    by (simp add: finishing_def tracking_inv_def core_inv_def pend_ok_def)
  have chl: "\<And>c. currently_handling s = Some c \<Longrightarrow> c < length (events s)"
    using a by (simp add: finishing_def)
  from a have "currently_handling s = None \<or>
      (\<exists>E'. currently_handling s = Some E' \<and> E' < length (events s)
             \<and> E' \<notin> set (R @ map fst (queue s)))" by (simp add: finishing_def)
  from fire_new_inv[OF _ this x, of "Some E" thr chs] a
  have "tracking_inv (fire_new thr x chs s) (R @ map fst (queue (fire_new thr x chs s))) (Some E)"
    by (simp add: fire_new_q finishing_def)
  then show ?thesis
    using a fire_new_old_fields(1,2)[OF E chl, of thr x chs] by (simp add: fire_new_ch finishing_def)
qed

lemma eventDone_inv:
  assumes inv: "tracking_inv s (R @ map fst (queue s)) (Some E)"
    and ch: "currently_handling s = None"
    and nc: "cause (events s ! E) = None \<longrightarrow> \<not> complete (events s ! E)"
  shows "tracking_inv (eventDone thr E error s) (R @ map fst (queue (eventDone thr E error s))) None \<and>
         currently_handling (eventDone thr E error s) = None"
proof -
  have E: "E < length (events s)"
    using inv by (simp add: tracking_inv_def core_inv_def pend_ok_def)
  have w: "waitingHandlers (events s ! E) = 0"
    using inv E by (simp add: tracking_inv_def core_inv_def sync_ok_def)
  define s1 where "s1 = (if alert_done (events s ! E)
                   then fire_new thr
                          (derived (events s ! E) ''done'' (Done E (v_value (events s ! E))))
                          (channels (events s ! E)) s
                   else s)"
  define s2 where "s2 = (if error = None \<and> success (events s1 ! E)
                   then fire_new thr
                          (derived (events s1 ! E) ''success'' (Success E (v_value (events s1 ! E))))
                          (case success_channels (events s1 ! E) of
                             None \<Rightarrow> channels (events s1 ! E)
                           | Some cs \<Rightarrow> cs)
                          s1
                   else s1)"
  have r: "eventDone thr E error s = eventDone_loop thr (length (events s2)) E s2"
    unfolding s2_def s1_def eventDone_def Let_def using w by simp
  have a0: "finishing s R E" using inv ch nc by (simp add: finishing_def)
  have a1: "finishing s1 R E"
    unfolding s1_def
    using a0 finishing_fire_new[OF a0, of "derived (events s ! E) ''done'' (Done E (v_value (events s ! E)))"]
    by (simp add: derived_app)
  have a2': "finishing s2 R E"
    unfolding s2_def
    using a1 finishing_fire_new[OF a1, of "derived (events s1 ! E) ''success'' (Success E (v_value (events s1 ! E)))"]
    by (simp add: derived_app)
  have a2: "tracking_inv s2 (R @ map fst (queue s2)) (Some E) \<and> currently_handling s2 = None
        \<and> (cause (events s2 ! E) = None \<longrightarrow> \<not> complete (events s2 ! E))"
    using a2' by (simp add: finishing_def)
  have E2: "E < length (events s2)"
    using a2 by (simp add: tracking_inv_def core_inv_def pend_ok_def)
  from eventDone_loop_inv[of s2 R E "length (events s2)" thr] a2 E2
  show ?thesis by (simp add: r)
qed

lemma setup_inv:
  assumes inv: "tracking_inv s (E # P) None"
  shows "tracking_inv (dispatcher_setup E s) P (Some E)"
    and "cause (events (dispatcher_setup E s) ! E) = None \<longrightarrow> \<not> complete (events (dispatcher_setup E s) ! E)"
proof -
  from inv have i1: "pend_ok s (E # P) None" and i2: "cause_ok s" and i3: "effects_ok s (E # P) None"
    and i4: "done_ok s (E # P) None" and i5: "pending_ok s (E # P)" and i6: "count_ok s (E # P) None"
    and i7: "sync_ok s"
    by (simp_all add: tracking_inv_def core_inv_def)
  have E: "E < length (events s)" "E \<notin> set P" using i1 by (simp_all add: pend_ok_def)
  have cE: "children s E = {}" "cause (events s ! E) \<noteq> Some E" using i5 by (simp_all add: pending_ok_def)
  have own: "\<And>p. own P (Some E) p = own (E # P) None p" by (simp add: own_def)
  have rule0: "\<And>p. count_complete s p =
      (if p < length (events s) \<and> complete (events s ! p) \<and> cause (events s ! p) = None
          \<and> p \<notin> set P \<and> Some E \<noteq> Some p then 1 else 0)"
    using i6[unfolded count_ok_def, rule_format] by auto
  have m1: "pend_ok s P (Some E)" using i1 by (simp add: pend_ok_def)
  have m3: "effects_ok s P (Some E)" using i3 by (simp add: effects_ok_def own)
  have m4: "done_ok s P (Some E)" using i4 by (simp add: done_ok_def)
  have m5: "pending_ok s P" using i5 by (simp add: pending_ok_def)
  have m6: "count_ok s P (Some E)" unfolding count_ok_def using rule0 by blast
  have mid: "tracking_inv s P (Some E)"
    unfolding tracking_inv_def core_inv_def using m1 i2 m3 m4 m5 m6 i7 by blast
  let ?s0 = "s\<lparr>currently_handling := Some E\<rparr>"
  have v0: "view ?s0 = view s" by (simp add: view_def)
  have mid0: "tracking_inv ?s0 P (Some E)" by (rule view_inv_imp[OF v0 mid])
  show "tracking_inv (dispatcher_setup E s) P (Some E)"
    and "cause (events (dispatcher_setup E s) ! E) = None \<longrightarrow> \<not> complete (events (dispatcher_setup E s) ! E)"
  proof -
    have both: "tracking_inv (dispatcher_setup E s) P (Some E) \<and>
      (cause (events (dispatcher_setup E s) ! E) = None \<longrightarrow> \<not> complete (events (dispatcher_setup E s) ! E))"
    proof (cases "complete (events s ! E)")
      case False
      then show ?thesis using mid0 by (simp add: dispatcher_setup_def)
    next
      case True
      let ?f = "\<lambda>y. y\<lparr>cause := (if cause y = None then Some E else cause y), effects := 1\<rparr>"
      let ?s1 = "upd_event E ?f ?s0"
      have r: "dispatcher_setup E s = ?s1" using True by (simp add: dispatcher_setup_def)
      show ?thesis
      proof (cases "cause (events s ! E)")
        case (Some p)
        have "effects (events s ! E) = 1"
          using i3 E Some cE by (simp add: effects_ok_def own_def)
        then have "view ?s1 = view ?s0"
          using Some E by (intro nth_equalityI) (simp_all add: view_def events_upd_event_nth)
        then have "tracking_inv ?s1 P (Some E)" using view_inv_imp mid0 by blast
        moreover have "cause (events ?s1 ! E) \<noteq> None" using Some E by (simp add: events_upd_event_nth)
        ultimately show ?thesis unfolding r by blast
      next
        case None
        have cs: "\<And>i. cause (events ?s1 ! i) = (if i = E then Some E else cause (events s ! i))"
          using E None by (simp add: events_upd_event_nth)
        have ef: "\<And>i. effects (events ?s1 ! i) = (if i = E then 1 else effects (events s ! i))"
          using E by (simp add: events_upd_event_nth)
        have cm: "\<And>i. complete (events ?s1 ! i) = complete (events s ! i)"
          by (simp add: events_upd_event_nth)
        have wh: "\<And>i. waitingHandlers (events ?s1 ! i) = waitingHandlers (events s ! i)"
          by (simp add: events_upd_event_nth)
        have len: "length (events ?s1) = length (events s)" by simp
        have noE: "\<And>c. c < length (events s) \<Longrightarrow> cause (events s ! c) \<noteq> Some E"
          using i2 None by (auto simp: cause_ok_def)
        have ch: "\<And>p. children ?s1 p = children s p"
          using noE None by (auto simp: children_def cs)
        have ct: "\<And>p. count_complete ?s1 p = count_complete s p"
        proof -
          fix p
          have "map kind (events ?s1) = map kind (events s)"
            by (rule nth_equalityI) (simp_all add: events_upd_event_nth)
          then show "count_complete ?s1 p = count_complete s p" by (simp add: count_complete_kinds)
        qed
        have 1: "pend_ok ?s1 P (Some E)" using m1 by (simp add: pend_ok_def)
        have 2: "cause_ok ?s1"
          unfolding cause_ok_def len
        proof (intro allI impI)
          fix c p assume c: "c < length (events s)" and cp: "cause (events ?s1 ! c) = Some p"
          show "p \<le> c \<and> cause (events ?s1 ! p) \<noteq> None"
          proof (cases "c = E")
            case True
            then have pE: "p = E" using cp cs[of E] by simp
            have "cause (events ?s1 ! E) \<noteq> None" using cs[of E] by simp
            then show ?thesis using True pE by blast
          next
            case False
            then have "cause (events s ! c) = Some p" using cp by (simp add: cs)
            with i2 c have "p \<le> c" "cause (events s ! p) \<noteq> None" by (auto simp: cause_ok_def)
            then show ?thesis by (simp add: cs)
          qed
        qed
        have 3: "effects_ok ?s1 P (Some E)"
          unfolding effects_ok_def len ch
        proof (intro allI impI)
          fix p assume p: "p < length (events s)" and t: "cause (events ?s1 ! p) \<noteq> None"
          show "effects (events ?s1 ! p) = own P (Some E) p + int (card (children s p))"
          proof (cases "p = E")
            case True
            then show ?thesis using cE by (simp add: ef own_def)
          next
            case False
            then show ?thesis using m3 p t by (simp add: effects_ok_def ef cs)
          qed
        qed
        have 4: "done_ok ?s1 P (Some E)"
          using m4 unfolding done_ok_def len ch by (auto simp: cs)
        have 5: "pending_ok ?s1 P"
          using m5 E unfolding pending_ok_def ch by (auto simp: cs)
        have 6: "count_ok ?s1 P (Some E)"
          unfolding count_ok_def len ct
        proof (intro allI)
          fix p
          show "count_complete s p =
            (if p < length (events s) \<and> complete (events ?s1 ! p) \<and> cause (events ?s1 ! p) = None
                \<and> p \<notin> set P \<and> Some E \<noteq> Some p then 1 else 0)"
            using rule0[of p] by (cases "p = E") (auto simp: cs cm)
        qed
        have 7: "sync_ok ?s1" using i7 by (simp add: sync_ok_def wh)
        have "tracking_inv ?s1 P (Some E)"
          unfolding tracking_inv_def core_inv_def using 1 2 3 4 5 6 7 by blast
        moreover have "cause (events ?s1 ! E) \<noteq> None" by (simp add: cs)
        ultimately show ?thesis unfolding r by blast
      qed
    qed
    from both show "tracking_inv (dispatcher_setup E s) P (Some E)" by simp
    from both show "cause (events (dispatcher_setup E s) ! E) = None
        \<longrightarrow> \<not> complete (events (dispatcher_setup E s) ! E)" by simp
  qed
qed

text \<open>
  The states between two flushes: nothing is handled, and the events that wait are those
  of the queue. \<open>flushes n\<close> is \<open>n\<close> calls of \<open>_flush\<close>, as \<open>tick\<close> makes them.
\<close>

definition consistent :: "'u mstate \<Rightarrow> bool" where
  "consistent s = (tracking_inv s (map fst (queue s)) None \<and> currently_handling s = None)"

fun flushes :: "nat \<Rightarrow> 'u env \<Rightarrow> thread \<Rightarrow> 'u mstate \<Rightarrow> exn + 'u mstate" where
  "flushes 0 env thr s = Inr s"
| "flushes (Suc n) env thr s =
     (case flush env thr s of Inl x \<Rightarrow> Inl x | Inr s1 \<Rightarrow> flushes n env thr s1)"

lemma dispatcher_inv:
  assumes sy: "synchronous env thr"
    and inv: "tracking_inv s (E # R @ map fst (queue s)) None"
    and ch: "currently_handling s = None"
  shows "\<exists>s'. dispatcher env thr E chs s = Inr s' \<and>
           tracking_inv s' (R @ map fst (queue s')) None \<and> currently_handling s' = None"
proof -
  define s1 where "s1 = dispatcher_setup E s"
  have q1: "queue s1 = queue s" "currently_handling s1 = Some E"
    by (simp_all add: s1_def dispatcher_setup_def Let_def)
  note su = setup_inv[OF inv, folded s1_def]
  have h1: "handling s1 R E (cause (events s1 ! E)) (complete (events s1 ! E))"
    using su(1) q1 by (simp add: handling_def)
  obtain hs s2 where dh: "dispatcher_handlers env E chs s1 = (hs, s2)" by (cases "dispatcher_handlers env E chs s1")
  have "view s2 = view s1 \<and> queue s2 = queue s1 \<and> currently_handling s2 = currently_handling s1"
    using dh by (auto simp: dispatcher_handlers_def Let_def view_def split: option.splits)
  then have h2: "handling s2 R E (cause (events s1 ! E)) (complete (events s1 ! E))"
    using handling_view[OF h1] by blast
  from dispatch_loop_handling[OF sy h2, of "args (events s1 ! E)" hs None "[]"]
  obtain err called s3 where
    dl: "dispatch_loop env thr E (args (events s1 ! E)) hs None [] s2 = Inr (err, called, s3)"
    and h3: "handling s3 R E (cause (events s1 ! E)) (complete (events s1 ! E))" by blast
  let ?s4 = "s3\<lparr>currently_handling := None\<rparr>"
  have v4: "view ?s4 = view s3" by (simp add: view_def)
  have inv4: "tracking_inv ?s4 (R @ map fst (queue ?s4)) (Some E)"
    using view_inv_imp[OF v4] h3 by (simp add: handling_def)
  have nc4: "cause (events ?s4 ! E) = None \<longrightarrow> \<not> complete (events ?s4 ! E)"
    using h3 su(2) by (simp add: handling_def)
  have r: "dispatcher env thr E chs s = Inr (eventDone thr E err ?s4)"
    using dh dl by (simp add: dispatcher_def s1_def[symmetric] Let_def)
  from eventDone_inv[OF inv4 _ nc4, of thr err] show ?thesis by (simp add: r)
qed

lemma flush_loop_inv:
  assumes sy: "synchronous env thr"
    and inv: "tracking_inv s (map fst q @ map fst (queue s)) None"
    and ch: "currently_handling s = None"
  shows "\<exists>s'. flush_loop env thr q s = Inr s' \<and> consistent s'"
  using inv ch
proof (induction q arbitrary: s)
  case Nil
  then show ?case by (simp add: consistent_def)
next
  case (Cons a q)
  obtain E chs where a: "a = (E, chs)" by (cases a)
  from Cons.prems(1) a have "tracking_inv s (E # map fst q @ map fst (queue s)) None" by simp
  from dispatcher_inv[OF sy this Cons.prems(2), of chs] obtain s1 where
    d: "dispatcher env thr E chs s = Inr s1"
    and i1: "tracking_inv s1 (map fst q @ map fst (queue s1)) None"
    and c1: "currently_handling s1 = None" by blast
  from Cons.IH[OF i1 c1] show ?case using d a by simp
qed

lemma flush_inv:
  assumes sy: "synchronous env thr" and c: "consistent s"
  shows "\<exists>s'. flush env thr s = Inr s' \<and> consistent s'"
proof -
  define s1 where "s1 = (if executing_thread s = None then s\<lparr>executing_thread := Some thr\<rparr> else s)"
  have v1: "view (s1\<lparr>queue := []\<rparr>) = view s" by (simp add: s1_def view_def)
  have q1: "queue s1 = queue s" by (simp add: s1_def)
  have "tracking_inv (s1\<lparr>queue := []\<rparr>) (map fst (queue s)) None"
    using view_inv_imp[OF v1] c by (simp add: consistent_def)
  then have i: "tracking_inv (s1\<lparr>queue := []\<rparr>) (map fst (queue s1) @ map fst (queue (s1\<lparr>queue := []\<rparr>))) None"
    by (simp add: q1)
  have ch: "currently_handling (s1\<lparr>queue := []\<rparr>) = None" using c by (simp add: s1_def consistent_def)
  from flush_loop_inv[OF sy i ch] obtain s2 where
    f: "flush_loop env thr (queue s1) (s1\<lparr>queue := []\<rparr>) = Inr s2" and c2: "consistent s2" by blast
  have v3: "view (s2\<lparr>executing_thread := None\<rparr>) = view s2" by (simp add: view_def)
  have c3: "consistent (s2\<lparr>executing_thread := None\<rparr>)"
    using view_inv_imp[OF v3] c2 by (simp add: consistent_def)
  have "flush env thr s = Inr (if executing_thread s = None then s2\<lparr>executing_thread := None\<rparr> else s2)"
    using f by (simp add: flush_def Let_def s1_def[symmetric])
  then show ?thesis using c2 c3 by auto
qed

lemma flushes_inv:
  assumes sy: "synchronous env thr" and c: "consistent s"
  shows "\<exists>s'. flushes n env thr s = Inr s' \<and> consistent s'"
  using c
proof (induction n arbitrary: s)
  case 0
  then show ?case by simp
next
  case (Suc n)
  from flush_inv[OF sy Suc.prems] obtain s1 where "flush env thr s = Inr s1" "consistent s1" by blast
  then show ?case using Suc.IH[of s1] by simp
qed

lemma idle_untracked:
  assumes inv: "tracking_inv s [] None" and e: "e < length (events s)"
  shows "cause (events s ! e) = None"
proof (rule ccontr)
  assume t: "cause (events s ! e) \<noteq> None"
  let ?S = "{i. i < length (events s) \<and> cause (events s ! i) \<noteq> None}"
  have fin: "finite ?S" by simp
  have ne: "?S \<noteq> {}" using e t by blast
  define m where "m = Max ?S"
  have m: "m \<in> ?S" unfolding m_def using Max_in[OF fin ne] .
  from inv have i2: "cause_ok s" and i4: "done_ok s [] None"
    by (simp_all add: tracking_inv_def core_inv_def)
  from i4 m have "children s m \<noteq> {}" by (simp add: done_ok_def)
  then obtain c where c: "c < length (events s)" "c \<noteq> m" "cause (events s ! c) = Some m"
    by (auto simp: children_def)
  with i2 have "m \<le> c" by (auto simp: cause_ok_def)
  moreover have "c \<in> ?S" using c by simp
  then have "c \<le> m" unfolding m_def using Max_ge[OF fin] by blast
  ultimately show False using c(2) by simp
qed

lemma consistent_facts:
  assumes c: "consistent s"
  shows "count_complete s e \<le> 1"
    and "count_complete s e = 1 \<longrightarrow>
           e < length (events s) \<and> complete (events s ! e) \<and> cause (events s ! e) = None \<and>
           e \<notin> fst ` set (queue s) \<and> children s e = {} \<and>
           (\<forall>c<length (events s). cause (events s ! c) \<noteq> Some e)"
    and "e < length (events s) \<and> cause (events s ! e) \<noteq> None \<longrightarrow>
           count_complete s e = 0 \<and> 1 \<le> effects (events s ! e) \<and>
           effects (events s ! e) =
             (if e \<in> fst ` set (queue s) then 1 else 0) + int (card (children s e))"
    and "queue s = [] \<and> e < length (events s) \<and> complete (events s ! e) \<longrightarrow> count_complete s e = 1"
proof -
  let ?P = "map fst (queue s)"
  from c have inv: "tracking_inv s ?P None" by (simp add: consistent_def)
  then have i2: "cause_ok s" and i3: "effects_ok s ?P None"
    and i4: "done_ok s ?P None" and i6: "count_ok s ?P None"
    by (simp_all add: tracking_inv_def core_inv_def)
  define cond where "cond = (e < length (events s) \<and> complete (events s ! e) \<and>
        cause (events s ! e) = None \<and> e \<notin> set ?P \<and> None \<noteq> Some e)"
  have rule1: "count_complete s e = (if cond then 1 else 0)"
    using i6[unfolded count_ok_def, rule_format, of e] unfolding cond_def .
  show "count_complete s e \<le> 1" using rule1 by (cases cond) simp_all
  show "count_complete s e = 1 \<longrightarrow>
           e < length (events s) \<and> complete (events s ! e) \<and> cause (events s ! e) = None \<and>
           e \<notin> fst ` set (queue s) \<and> children s e = {} \<and>
           (\<forall>c<length (events s). cause (events s ! c) \<noteq> Some e)"
  proof
    assume one: "count_complete s e = 1"
    with rule1 have cond by (cases cond) simp_all
    then have f: "e < length (events s)" "complete (events s ! e)" "cause (events s ! e) = None"
      "e \<notin> set ?P" by (simp_all add: cond_def)
    have no: "\<forall>c<length (events s). cause (events s ! c) \<noteq> Some e"
      using i2 f(3) by (auto simp: cause_ok_def)
    then have "children s e = {}" by (auto simp: children_def)
    with f no show "e < length (events s) \<and> complete (events s ! e) \<and> cause (events s ! e) = None \<and>
           e \<notin> fst ` set (queue s) \<and> children s e = {} \<and>
           (\<forall>c<length (events s). cause (events s ! c) \<noteq> Some e)" by simp
  qed
  show "e < length (events s) \<and> cause (events s ! e) \<noteq> None \<longrightarrow>
           count_complete s e = 0 \<and> 1 \<le> effects (events s ! e) \<and>
           effects (events s ! e) =
             (if e \<in> fst ` set (queue s) then 1 else 0) + int (card (children s e))"
  proof
    assume a: "e < length (events s) \<and> cause (events s ! e) \<noteq> None"
    then have ef: "effects (events s ! e) = own ?P None e + int (card (children s e))"
      using i3 by (simp add: effects_ok_def)
    have o: "own ?P None e = (if e \<in> fst ` set (queue s) then 1 else 0)" by (simp add: own_def)
    have "1 \<le> effects (events s ! e)"
    proof (cases "e \<in> set ?P")
      case True
      then show ?thesis using ef by (simp add: own_def)
    next
      case False
      then have "children s e \<noteq> {}" using i4 a by (simp add: done_ok_def)
      then have "card (children s e) > 0" by (simp add: card_gt_0_iff)
      then show ?thesis using ef False by (simp add: own_def)
    qed
    moreover have "\<not> cond" using a by (simp add: cond_def)
    then have "count_complete s e = 0" using rule1 by simp
    ultimately show "count_complete s e = 0 \<and> 1 \<le> effects (events s ! e) \<and>
           effects (events s ! e) =
             (if e \<in> fst ` set (queue s) then 1 else 0) + int (card (children s e))"
      using ef o by simp
  qed
  show "queue s = [] \<and> e < length (events s) \<and> complete (events s ! e) \<longrightarrow> count_complete s e = 1"
  proof
    assume a: "queue s = [] \<and> e < length (events s) \<and> complete (events s ! e)"
    then have "tracking_inv s [] None" using inv by simp
    from idle_untracked[OF this] a have "cause (events s ! e) = None" by simp
    then have cond using a by (simp add: cond_def)
    then show "count_complete s e = 1" using rule1 by simp
  qed
qed

lemma consistent_initial:
  assumes "events s = []" and "queue s = []" and "currently_handling s = None"
  shows "consistent s"
proof -
  have ch: "\<And>e. children s e = {}" using assms(1) by (simp add: children_def)
  have ct: "\<And>e. count_complete s e = 0" using assms(1) by (simp add: count_complete_def)
  show ?thesis
    unfolding consistent_def tracking_inv_def core_inv_def pend_ok_def cause_ok_def effects_ok_def
      done_ok_def pending_ok_def count_ok_def sync_ok_def ch ct
    using assms by simp
qed

lemma consistent_fire:
  assumes c: "consistent s" and x: "app_event x"
  shows "consistent (fire_new thr x chs s)"
proof -
  from c have inv: "tracking_inv s (map fst (queue s)) None" and ch: "currently_handling s = None"
    by (simp_all add: consistent_def)
  from x have x': "cause x = None" "not_complete_kind x" "waitingHandlers x = 0"
    by (simp_all add: app_event_def)
  have "currently_handling s = None \<or>
        (\<exists>E. currently_handling s = Some E \<and> E < length (events s) \<and> E \<notin> set (map fst (queue s)))"
    using ch by simp
  from fire_new_inv[OF inv this x', of thr chs]
  have "tracking_inv (fire_new thr x chs s) (map fst (queue (fire_new thr x chs s))) None"
    by (simp add: fire_new_q)
  moreover have "currently_handling (fire_new thr x chs s) = None"
    using ch by (simp add: fire_new_ch)
  ultimately show ?thesis by (simp add: consistent_def)
qed

text \<open>
  Handlers that do not suspend. With handlers that return no generator and raise no
  fatal exception, every flush returns and keeps the bookkeeping consistent, and
  between flushes, for every event \<open>e\<close>: \<open>Complete(e)\<close> has been made at most once; if
  it has been made, then \<open>e\<close> was fired with \<open>complete\<close>, its \<open>cause\<close> is deleted and
  no event has \<open>e\<close> as its \<open>cause\<close>; as long as \<open>e\<close> has a \<open>cause\<close>, \<open>Complete(e)\<close> has
  not been made and \<open>effects\<close> is one for \<open>e\<close> itself while it waits in the queue, plus
  the number of events whose \<open>cause\<close> is \<open>e\<close>; and when the queue is empty,
  \<open>Complete(e)\<close> has been made exactly once for every event \<open>e\<close> with \<open>complete\<close>.
\<close>

lemma complete_fired_once:
  assumes "synchronous env thr" and "consistent s"
  shows "\<exists>s'. flushes n env thr s = Inr s' \<and> consistent s' \<and>
     (\<forall>e. count_complete s' e \<le> 1 \<and>
        (count_complete s' e = 1 \<longrightarrow>
           e < length (events s') \<and> complete (events s' ! e) \<and> cause (events s' ! e) = None \<and>
           e \<notin> fst ` set (queue s') \<and> children s' e = {} \<and>
           (\<forall>c<length (events s'). cause (events s' ! c) \<noteq> Some e)) \<and>
        (e < length (events s') \<and> cause (events s' ! e) \<noteq> None \<longrightarrow>
           count_complete s' e = 0 \<and> 1 \<le> effects (events s' ! e) \<and>
           effects (events s' ! e) =
             (if e \<in> fst ` set (queue s') then 1 else 0) + int (card (children s' e))) \<and>
        (queue s' = [] \<and> e < length (events s') \<and> complete (events s' ! e) \<longrightarrow>
           count_complete s' e = 1))"
proof -
  from flushes_inv[OF assms, of n] obtain s' where
    f: "flushes n env thr s = Inr s'" and c: "consistent s'" by blast
  show ?thesis
    using f c consistent_facts[OF c] by blast
qed

text \<open>
  An example: the handler of \<open>root\<close> fires \<open>child\<close>; \<open>root\<close> is fired with \<open>complete\<close>.
  After the first flush \<open>root\<close> is tracked with one child; the second flush dispatches
  \<open>child\<close> and fires \<open>root_complete\<close>, the third dispatches it.
\<close>

definition h_root :: handler where
  "h_root = \<lparr>hid = 20, hname = ''on_root'', names = [''root''], channel = None, priority = 0,
             filter_h = False, event_h = False, self_channel = Some (Some ''*'')\<rparr>"

definition call3 :: "handler \<Rightarrow> eid option \<Rightarrow> pyval list \<Rightarrow> unit mstate \<Rightarrow> outcome \<times> unit mstate" where
  "call3 h eo eargs s =
     (if hid h = 20 then (Returns PNone, fires 0 [(Event ''child'' Plain, [CStr ''*''])] s)
      else (Returns PNone, s))"

definition env3 :: "unit env" where
  "env3 = \<lparr>call = call3,
           call_tick = (\<lambda>f s. (Returns PNone, s)),
           next_g = (\<lambda>g s. (StopIteration, s)),
           send_g = (\<lambda>g v s. (StopIteration, s)),
           iter_h = (\<lambda>S. filter (\<lambda>h. h \<in> S) [h_root]),
           iter_t = (\<lambda>T. []),
           iter_k = (\<lambda>K. []),
           register_fallback = (\<lambda>s. s)\<rparr>"

definition root3 :: manager where
  "root3 = Manager 0 None
     \<lparr>globals_r = {}, handlers_r = [''root'' \<mapsto> {h_root}], attrs = init_attrs\<rparr> []"

definition x_root :: event where
  "x_root = (Event ''root'' Plain)\<lparr>complete := True, channels := [CStr ''*'']\<rparr>"

definition tree0 :: "unit mstate" where
  "tree0 = \<lparr>root = root3, events = [x_root], queue = [(0, [CStr ''*''])],
            cache = Map.empty, tasks = {}, ticks = {}, currently_handling = None,
            executing_thread = None, running = False, fallback_generator = False, app = ()\<rparr>"

lemma app_unit [simp]: "(s :: unit mstate)\<lparr>app := u\<rparr> = s"
  by (cases s) simp

lemma env3_synchronous: "synchronous env3 0"
  unfolding synchronous_def
proof (intro allI)
  fix h eo eargs and s :: "unit mstate"
  show "\<exists>specs u out.
          call env3 h eo eargs s = (out, fires 0 specs (s\<lparr>app := u\<rparr>)) \<and>
          list_all (\<lambda>(x, chs). app_event x) specs \<and>
          (case out of Returns v \<Rightarrow> (case v of PGen g \<Rightarrow> False | _ \<Rightarrow> True) | Raises x \<Rightarrow> \<not> fatal x)"
  proof (cases "hid h = 20")
    case True
    show ?thesis
      by (rule exI[of _ "[(Event ''child'' Plain, [CStr ''*''])]"], rule exI[of _ "app s"],
          rule exI[of _ "Returns PNone"])
         (simp add: env3_def call3_def True app_event_def Event_def not_complete_kind_def)
  next
    case False
    show ?thesis
      by (rule exI[of _ "[]"], rule exI[of _ "app s"], rule exI[of _ "Returns PNone"])
         (simp add: env3_def call3_def False fires_def)
  qed
qed

lemma tree0_consistent: "consistent tree0"
proof -
  have ch: "\<And>e. children tree0 e = {}"
    by (auto simp: children_def tree0_def x_root_def Event_def)
  have ct: "\<And>e. count_complete tree0 e = 0"
    by (simp add: count_complete_def tree0_def x_root_def Event_def)
  show ?thesis
    unfolding consistent_def tracking_inv_def core_inv_def pend_ok_def cause_ok_def effects_ok_def
      done_ok_def pending_ok_def count_ok_def sync_ok_def ch ct
    by (auto simp: tree0_def x_root_def Event_def own_def)
qed

definition x_child :: event where
  "x_child = (Event ''child'' Plain)\<lparr>channels := [CStr ''*'']\<rparr>"

definition x_root_complete :: event where
  "x_root_complete = (Event ''root_complete'' (Complete 0 PNone))\<lparr>channels := [CStr ''*'']\<rparr>"

definition tree1 :: "unit mstate" where
  "tree1 = tree0\<lparr>events := [x_root\<lparr>cause := Some 0, effects := 1, handler_e := Some h_root\<rparr>,
                              x_child\<lparr>cause := Some 0, effects := 1\<rparr>],
                  queue := [(1, [CStr ''*''])],
                  cache := [(''root'', [CStr ''*'']) \<mapsto> [h_root]]\<rparr>"

definition tree2 :: "unit mstate" where
  "tree2 = tree0\<lparr>events := [x_root\<lparr>handler_e := Some h_root\<rparr>, x_child, x_root_complete],
                  queue := [(2, [CStr ''*''])],
                  cache := [(''root'', [CStr ''*'']) \<mapsto> [h_root], (''child'', [CStr ''*'']) \<mapsto> []]\<rparr>"

definition tree3 :: "unit mstate" where
  "tree3 = tree0\<lparr>events := [x_root\<lparr>handler_e := Some h_root\<rparr>, x_child, x_root_complete],
                  queue := [],
                  cache := [(''root'', [CStr ''*'']) \<mapsto> [h_root], (''child'', [CStr ''*'']) \<mapsto> [],
                            (''root_complete'', [CStr ''*'']) \<mapsto> []]\<rparr>"

lemmas treedefs = tree0_def tree1_def tree2_def tree3_def x_root_def x_child_def x_root_complete_def
  Event_def root3_def env3_def

lemma tree_handlers_root:
  "dispatcher_handlers env3 0 [CStr ''*''] (dispatcher_setup 0 (tree0\<lparr>executing_thread := Some 0, queue := []\<rparr>))
     = ([h_root], (dispatcher_setup 0 (tree0\<lparr>executing_thread := Some 0, queue := []\<rparr>))
                    \<lparr>cache := [(''root'', [CStr ''*'']) \<mapsto> [h_root]]\<rparr>)"
  by (simp add: dispatcher_handlers_def dispatcher_setup_def upd_event_def treedefs getHandlers_def
      own_handlers_def bucket_def sorted_reverse_def h_root_def Let_def)

lemmas rundefs = flush_def dispatcher_def dispatcher_setup_def dispatcher_handlers_def eventDone_def
  invoke_def store_value_def fire_new_def new_event_def fireEvent_def fire_def fire_channels_def
  derived_def upd_event_def getHandlers_def own_handlers_def bucket_def sorted_reverse_def
  call3_def fires_def h_root_def Let_def

lemma tree_flush1: "flush env3 0 tree0 = Inr tree1"
  by (simp add: rundefs treedefs eventDone_loop.simps)

lemma tree_flush2: "flush env3 0 tree1 = Inr tree2"
  by (simp add: rundefs treedefs eventDone_loop.simps)

lemma tree_flush3: "flush env3 0 tree2 = Inr tree3"
  by (simp add: rundefs treedefs eventDone_loop.simps)

lemma complete_fired_once_example:
  "synchronous env3 0 \<and> consistent tree0 \<and> count_complete tree0 0 = 0 \<and>
   flushes 1 env3 0 tree0 = Inr tree1 \<and> count_complete tree1 0 = 0 \<and>
   effects (events tree1 ! 0) = 1 \<and> children tree1 0 = {1} \<and>
   flushes 3 env3 0 tree0 = Inr tree3 \<and> queue tree3 = [] \<and> complete (events tree3 ! 0) \<and>
   kind (events tree3 ! 2) = Complete 0 PNone \<and> count_complete tree3 0 = 1"
proof -
  have f1: "flushes 1 env3 0 tree0 = Inr tree1"
    by (simp add: tree_flush1)
  have f3: "flushes 3 env3 0 tree0 = Inr tree3"
    by (simp add: numeral_3_eq_3 tree_flush1 tree_flush2 tree_flush3)
  have t1: "0 < length (events tree1) \<and> cause (events tree1 ! 0) \<noteq> None"
    by (simp add: tree1_def tree0_def)
  have q1: "0 \<notin> fst ` set (queue tree1)"
    by (simp add: tree1_def tree0_def)
  have t3: "queue tree3 = [] \<and> 0 < length (events tree3) \<and> complete (events tree3 ! 0)"
    by (simp add: tree3_def tree0_def x_root_def Event_def)
  have k3: "kind (events tree3 ! 2) = Complete 0 PNone"
    by (simp add: tree3_def tree0_def x_root_complete_def Event_def)
  have c0: "count_complete tree0 0 = 0"
    by (simp add: count_complete_def tree0_def x_root_def Event_def)
  have ch: "children tree1 0 = {1}"
    by (auto simp: children_def tree1_def tree0_def x_child_def less_Suc_eq)
  from complete_fired_once[OF env3_synchronous tree0_consistent, of 1] obtain s1 where
    s1: "flushes 1 env3 0 tree0 = Inr s1"
    and r1: "0 < length (events s1) \<and> cause (events s1 ! 0) \<noteq> None \<longrightarrow>
           count_complete s1 0 = 0 \<and> 1 \<le> effects (events s1 ! 0) \<and>
           effects (events s1 ! 0) =
             (if 0 \<in> fst ` set (queue s1) then 1 else 0) + int (card (children s1 0))"
    by blast
  from s1 f1 have e1: "s1 = tree1" by simp
  from r1[unfolded e1] t1 have a: "count_complete tree1 0 = 0"
    and b: "effects (events tree1 ! 0) =
             (if 0 \<in> fst ` set (queue tree1) then 1 else 0) + int (card (children tree1 0))"
    by blast+
  from b q1 ch have b': "effects (events tree1 ! 0) = 1" by simp
  from complete_fired_once[OF env3_synchronous tree0_consistent, of 3] obtain s3 where
    s3: "flushes 3 env3 0 tree0 = Inr s3"
    and r3: "queue s3 = [] \<and> 0 < length (events s3) \<and> complete (events s3 ! 0) \<longrightarrow>
           count_complete s3 0 = 1"
    by blast
  from s3 f3 have e3: "s3 = tree3" by simp
  from r3[unfolded e3] t3 have c: "count_complete tree3 0 = 1" by blast
  show ?thesis
    using env3_synchronous tree0_consistent c0 f1 f3 a b' c t3 k3 ch by simp
qed

subsection \<open>A task that raises\<close>

definition idle0 :: "unit mstate" where
  "idle0 = (state1 x_work)\<lparr>queue := [(0, [CStr ''*''])], currently_handling := None,
              executing_thread := None, running := False\<rparr>"

definition waiting1 :: "unit mstate" where
  "waiting1 = (state1 (x_work\<lparr>cause := Some 0, effects := 1, handler_e := Some h_gen,
                waitingHandlers := 1, v_promise := True\<rparr>))
             \<lparr>cache := [(''work'', [CStr ''*'']) \<mapsto> [h_gen]], tasks := {Task2 0 0},
              currently_handling := None, executing_thread := None, running := False\<rparr>"

definition x_error :: event where
  "x_error = (Event ''error'' (Error (PError (Exception ''boom'')) (Some h_gen)))\<lparr>channels := [CStr ''*'']\<rparr>"

definition lost2 :: "unit mstate" where
  "lost2 = waiting1
             \<lparr>events := [x_work\<lparr>channels := [CStr ''*''], cause := Some 0, effects := 1,
                           handler_e := Some h_gen, waitingHandlers := 1, v_promise := True,
                           v_errors := True, v_informed := True\<rparr>, x_error],
              cache := [(''work'', [CStr ''*'']) \<mapsto> [h_gen], (''error'', [CStr ''*'']) \<mapsto> []],
              tasks := {}\<rparr>"

definition lost1 :: "unit mstate" where
  "lost1 = lost2\<lparr>queue := [(1, [CStr ''*''])], executing_thread := Some 0,
                 cache := [(''work'', [CStr ''*'']) \<mapsto> [h_gen]]\<rparr>"

lemma waiting_flush:
  "flush env1 0 (idle0\<lparr>executing_thread := Some 0\<rparr>) = Inr (waiting1\<lparr>executing_thread := Some 0\<rparr>)"
  by (simp add: flush_def dispatcher_def dispatcher_setup_def dispatcher_handlers_def eventDone_def
      invoke_def store_value_def registerTask_def upd_event_def getHandlers_def own_handlers_def
      bucket_def sorted_reverse_def hdefs Let_def env1_def call1_def root1_def
      idle0_def waiting1_def state1_def x_work_def Event_def)

lemma lost_task:
  "processTask 1 env1 0 0 0 None (waiting1\<lparr>executing_thread := Some 0\<rparr>) = Some lost1"
  by (simp add: env1_def task_failed_def unregisterTask_def waiting1_def lost1_def lost2_def state1_def
      x_work_def x_error_def Event_def upd_event_def fire_new_def new_event_def fireEvent_def fire_def
      fire_channels_def root1_def Let_def)

lemma lost_flush: "flush env1 0 lost1 = Inr (lost2\<lparr>executing_thread := Some 0\<rparr>)"
  by (simp add: flush_def dispatcher_def dispatcher_setup_def dispatcher_handlers_def eventDone_def
      eventDone_loop.simps upd_event_def getHandlers_def own_handlers_def bucket_def
      sorted_reverse_def hdefs Let_def env1_def root1_def lost1_def lost2_def waiting1_def state1_def
      x_work_def x_error_def Event_def)

text \<open>
  Claim C1: what the code does. The event \<open>work\<close> is fired with \<open>complete\<close>; its handler
  returns a generator, and the first \<open>next()\<close> of the generator raises. The first
  \<open>tick\<close> dispatches the event and registers the task. In the second \<open>tick\<close> the bare
  \<open>except\<close> of \<open>processTask\<close> unregisters the task and fires \<open>Error\<close>, without the
  decrement of \<open>waitingHandlers\<close> and the call of \<open>_eventDone\<close> that a generator which
  ends gets; the flush dispatches the \<open>Error\<close> event. From then on no task is left, the
  queue is empty and every \<open>tick\<close> leaves the state as it is: the event, its only
  handler finished, still has \<open>effects = 1\<close>, and no \<open>Complete\<close> event has been made
  for it.
\<close>

theorem complete_lost_after_task_failure:
  "tick 1 env1 0 idle0 = Some (Inr waiting1) \<and>
   tick 1 env1 0 waiting1 = Some (Inr lost2) \<and>
   tick 1 env1 0 lost2 = Some (Inr lost2) \<and>
   complete (events idle0 ! 0) \<and> queue idle0 = [(0, [CStr ''*''])] \<and>
   tasks waiting1 = {Task2 0 0} \<and>
   tasks lost2 = {} \<and> queue lost2 = [] \<and>
   map kind (events lost2) = [Plain, Error (PError (Exception ''boom'')) (Some h_gen)] \<and>
   complete (events lost2 ! 0) \<and> cause (events lost2 ! 0) = Some 0 \<and>
   effects (events lost2 ! 0) = 1 \<and> waitingHandlers (events lost2 ! 0) = 1 \<and>
   count_complete lost2 0 = 0"
proof -
  have e: "iter_k env1 {} = []" "iter_t env1 {} = []" "iter_t env1 {Task2 0 0} = [Task2 0 0]"
    by (simp_all add: env1_def)
  have i: "ticks idle0 = {}" "tasks idle0 = {}" "running idle0 = False"
    "queue idle0 = [(0, [CStr ''*''])]" "complete (events idle0 ! 0)"
    by (simp_all add: idle0_def state1_def x_work_def Event_def)
  have w: "ticks waiting1 = {}" "tasks waiting1 = {Task2 0 0}" "running waiting1 = False"
    "waiting1\<lparr>executing_thread := Some 0, executing_thread := None\<rparr> = waiting1"
    by (simp_all add: waiting1_def state1_def)
  have l1: "running lost1 = False" "queue lost1 \<noteq> []"
    by (simp_all add: lost1_def lost2_def waiting1_def state1_def)
  have l: "ticks lost2 = {}" "tasks lost2 = {}" "running lost2 = False" "queue lost2 = []"
    "lost2\<lparr>executing_thread := Some 0, executing_thread := None\<rparr> = lost2"
    "lost2\<lparr>executing_thread := None\<rparr> = lost2"
    by (simp_all add: lost2_def waiting1_def state1_def)
  have f: "map kind (events lost2) = [Plain, Error (PError (Exception ''boom'')) (Some h_gen)]"
    "complete (events lost2 ! 0)" "cause (events lost2 ! 0) = Some 0"
    "effects (events lost2 ! 0) = 1" "waitingHandlers (events lost2 ! 0) = 1"
    by (simp_all add: lost2_def x_work_def x_error_def Event_def)
  have c: "count_complete lost2 0 = 0"
    by (simp add: count_complete_def lost2_def x_work_def x_error_def Event_def)
  have t0: "tick 1 env1 0 idle0 = Some (Inr waiting1)"
    unfolding tick_def Let_def by (simp add: i e waiting_flush w)
  have t1: "tick 1 env1 0 waiting1 = Some (Inr lost2)"
    unfolding tick_def Let_def by (simp add: w e lost_task[unfolded One_nat_def] l1 lost_flush l del: processTask.simps)
  have t2: "tick 1 env1 0 lost2 = Some (Inr lost2)"
    unfolding tick_def Let_def by (simp add: l e)
  show ?thesis using t0 t1 t2 i w l f c by simp
qed

text \<open>
  The same run with a generator that ends at its first \<open>next()\<close>: the \<open>except
  StopIteration\<close> clause decrements \<open>waitingHandlers\<close> and calls \<open>_eventDone\<close>, which
  fires \<open>Complete\<close>; the flush of the same \<open>tick\<close> dispatches it.
\<close>

definition env5 :: "unit env" where
  "env5 = env1\<lparr>next_g := (\<lambda>g s. (StopIteration, s))\<rparr>"

definition x_work_complete :: event where
  "x_work_complete = (Event ''work_complete'' (Complete 0 PNone))\<lparr>channels := [CStr ''*'']\<rparr>"

definition done2 :: "unit mstate" where
  "done2 = waiting1
             \<lparr>events := [x_work\<lparr>channels := [CStr ''*''], cause := None, effects := 0,
                           handler_e := Some h_gen, waitingHandlers := 0, v_promise := True,
                           v_informed := True\<rparr>, x_work_complete],
              cache := [(''work'', [CStr ''*'']) \<mapsto> [h_gen], (''work_complete'', [CStr ''*'']) \<mapsto> []],
              tasks := {}\<rparr>"

definition done1 :: "unit mstate" where
  "done1 = done2\<lparr>queue := [(1, [CStr ''*''])], executing_thread := Some 0,
                 cache := [(''work'', [CStr ''*'']) \<mapsto> [h_gen]]\<rparr>"

lemma done_task:
  "processTask 1 env5 0 0 0 None (waiting1\<lparr>executing_thread := Some 0\<rparr>) = Some done1"
  by (simp add: env5_def env1_def task_stopped_def unregisterTask_def eventDone_def eventDone_loop.simps
      waiting1_def done1_def done2_def state1_def x_work_def x_work_complete_def Event_def derived_def
      upd_event_def fire_new_def new_event_def fireEvent_def fire_def fire_channels_def root1_def Let_def)

lemma done_flush: "flush env5 0 done1 = Inr (done2\<lparr>executing_thread := Some 0\<rparr>)"
  by (simp add: flush_def dispatcher_def dispatcher_setup_def dispatcher_handlers_def eventDone_def
      eventDone_loop.simps upd_event_def getHandlers_def own_handlers_def bucket_def
      sorted_reverse_def hdefs Let_def env5_def env1_def root1_def done1_def done2_def waiting1_def
      state1_def x_work_def x_work_complete_def Event_def)

lemma complete_after_task_end:
  "tick 1 env5 0 waiting1 = Some (Inr done2) \<and> tasks done2 = {} \<and> queue done2 = [] \<and>
   map kind (events done2) = [Plain, Complete 0 PNone] \<and> count_complete done2 0 = 1"
proof -
  have e: "iter_k env5 {} = []" "iter_t env5 {Task2 0 0} = [Task2 0 0]"
    by (simp_all add: env5_def env1_def)
  have w: "ticks waiting1 = {}" "tasks waiting1 = {Task2 0 0}"
    by (simp_all add: waiting1_def state1_def)
  have l1: "running done1 = False" "queue done1 \<noteq> []"
    by (simp_all add: done1_def done2_def waiting1_def state1_def)
  have l: "tasks done2 = {}" "queue done2 = []"
    "done2\<lparr>executing_thread := Some 0, executing_thread := None\<rparr> = done2"
    by (simp_all add: done2_def waiting1_def state1_def)
  have f: "map kind (events done2) = [Plain, Complete 0 PNone]"
    by (simp add: done2_def x_work_def x_work_complete_def Event_def)
  have c: "count_complete done2 0 = 1"
    by (simp add: count_complete_def done2_def x_work_def x_work_complete_def Event_def)
  have t1: "tick 1 env5 0 waiting1 = Some (Inr done2)"
    unfolding tick_def Let_def by (simp add: w e done_task[unfolded One_nat_def] l1 done_flush l del: processTask.simps)
  show ?thesis using t1 l f c by simp
qed

end
